theory Spec2Isabelle
  imports Main "HOL-Library.Sublist"
begin

section \<open>Bytes, text and numbers\<close>

text \<open>
  Python \<open>bytes\<close> are lists of 8-bit characters. A Python \<open>str\<close> is represented by its
  UTF-8 encoding, so \<open>s.encode("utf-8")\<close> and \<open>asbytes\<close> keep the characters as they are,
  a \<open>str\<close> is ASCII exactly when every character is below 128, and searching for or
  replacing an ASCII character (\<open>/\<close>, newline) works on the encoding as it does on the text.
\<close>

type_synonym bytes = "char list"

definition NL :: char where "NL = CHR 0x0A"
definition NUL :: char where "NUL = CHR 0x00"
definition SOH :: char where "SOH = CHR 0x01"
definition BSL :: char where "BSL = CHR 0x5C"

text \<open>The ASCII whitespace that \<open>bytes.strip()\<close> and \<open>int()\<close> skip.\<close>

definition is_space :: "char \<Rightarrow> bool" where
  "is_space c = (c \<in> set [CHR 0x20, CHR 0x09, CHR 0x0A, CHR 0x0B, CHR 0x0C, CHR 0x0D])"

definition strip :: "bytes \<Rightarrow> bytes" where
  "strip b = rev (dropWhile is_space (rev (dropWhile is_space b)))"

definition rstrip_char :: "char \<Rightarrow> bytes \<Rightarrow> bytes" where
  "rstrip_char c b = rev (dropWhile (\<lambda>x. x = c) (rev b))"

text \<open>\<open>b.split(b" ", n)\<close>: at most \<open>n\<close> cuts, each at a single space, empty fields kept.\<close>

fun split_max :: "nat \<Rightarrow> bytes \<Rightarrow> bytes list" where
  "split_max 0 b = [b]"
| "split_max (Suc n) b =
     (if CHR '' '' \<in> set b
      then takeWhile (\<lambda>c. c \<noteq> CHR '' '') b
             # split_max n (tl (dropWhile (\<lambda>c. c \<noteq> CHR '' '') b))
      else [b])"

text \<open>\<open>b.split(b" ")\<close>: a cut at every space (there are at most \<open>length b\<close> of them).\<close>

definition split_sp :: "bytes \<Rightarrow> bytes list" where
  "split_sp b = split_max (length b) b"

text \<open>\<open>s.replace("\n", "\\^J")\<close>: every newline becomes the three characters \<open>\^J\<close>.\<close>

definition quote_nl :: "bytes \<Rightarrow> bytes" where
  "quote_nl b = concat (map (\<lambda>c. if c = NL then [BSL, CHR ''^'', CHR ''J''] else [c]) b)"

text \<open>\<open>s.encode("ascii")\<close> raises \<open>UnicodeEncodeError\<close> (here \<open>None\<close>) on any non-ASCII character.\<close>

definition encode_ascii :: "string \<Rightarrow> bytes option" where
  "encode_ascii s = (if \<forall>c \<in> set s. of_char c < (128::nat) then Some s else None)"

subsection \<open>Formatting integers\<close>

definition digit_char :: "nat \<Rightarrow> char" where
  "digit_char d = char_of (48 + d)"

fun dec_nat :: "nat \<Rightarrow> string" where
  "dec_nat n = (if n < 10 then [digit_char n] else dec_nat (n div 10) @ [digit_char (n mod 10)])"

fun oct_nat :: "nat \<Rightarrow> string" where
  "oct_nat n = (if n < 8 then [digit_char n] else oct_nat (n div 8) @ [digit_char (n mod 8)])"

declare dec_nat.simps [simp del] oct_nat.simps [simp del]

text \<open>\<open>f"{i}"\<close> and \<open>f"{i:d}"\<close> for an integer.\<close>

definition fmt_d :: "int \<Rightarrow> string" where
  "fmt_d i = (if i < 0 then CHR ''-'' # dec_nat (nat (- i)) else dec_nat (nat i))"

text \<open>\<open>f"{m:04o}"\<close> for a non-negative integer: octal digits, zero-padded to four.\<close>

definition fmt_04o :: "nat \<Rightarrow> string" where
  "fmt_04o m = replicate (4 - length (oct_nat m)) (CHR ''0'') @ oct_nat m"

text \<open>
  \<open>str(b)\<close> of a bytes object, which is what an f-string makes of it: \<open>b'...'\<close>, in
  double quotes when the bytes hold a single quote and no double quote, with the quote
  character, the backslash, tab, newline, carriage return and every non-printable byte
  escaped.
\<close>

definition hex_char :: "nat \<Rightarrow> char" where
  "hex_char d = (if d < 10 then char_of (48 + d) else char_of (87 + d))"

definition repr_byte :: "char \<Rightarrow> char \<Rightarrow> string" where
  "repr_byte q c =
     (if c = q \<or> c = BSL then [BSL, c]
      else if c = CHR 0x09 then [BSL, CHR ''t'']
      else if c = CHR 0x0A then [BSL, CHR ''n'']
      else if c = CHR 0x0D then [BSL, CHR ''r'']
      else if of_char c < (32::nat) \<or> (127::nat) \<le> of_char c
        then [BSL, CHR ''x'', hex_char (of_char c div 16), hex_char (of_char c mod 16)]
      else [c])"

definition repr_bytes :: "bytes \<Rightarrow> string" where
  "repr_bytes b =
     (let q = (if CHR 0x27 \<in> set b \<and> CHR 0x22 \<notin> set b then CHR 0x22 else CHR 0x27)
      in CHR ''b'' # q # concat (map (repr_byte q) b) @ [q])"

subsection \<open>Parsing integers\<close>

text \<open>
  \<open>int(b, base)\<close> for base 8 or 10: surrounding whitespace is skipped, a sign may come
  first, base 8 accepts the prefix \<open>0o\<close>, digits may be separated by single underscores,
  and at least one digit is required. \<open>None\<close> is \<open>ValueError\<close>.
\<close>

definition digit_of :: "nat \<Rightarrow> char \<Rightarrow> nat option" where
  "digit_of base c =
     (let v = of_char c in
      if (48::nat) \<le> v \<and> v < 48 + base \<and> v \<le> 57 then Some (v - 48) else None)"

fun parse_digits :: "nat \<Rightarrow> nat \<Rightarrow> bool \<Rightarrow> bytes \<Rightarrow> nat option" where
  "parse_digits base acc us [] = (if us then None else Some acc)"
| "parse_digits base acc us (c # cs) =
     (if c = CHR ''_'' then (if us then None else parse_digits base acc True cs)
      else case digit_of base c of
             None \<Rightarrow> None
           | Some d \<Rightarrow> parse_digits base (acc * base + d) False cs)"

definition drop_prefix :: "nat \<Rightarrow> bytes \<Rightarrow> bytes" where
  "drop_prefix base b =
     (if base = 8 \<and> (take 2 b = ''0o'' \<or> take 2 b = ''0O'')
      then (if take 1 (drop 2 b) = ''_'' then drop 3 b else drop 2 b)
      else b)"

definition py_int :: "nat \<Rightarrow> bytes \<Rightarrow> int option" where
  "py_int base b =
     (let s = strip b;
          neg = (take 1 s = ''-'');
          s1 = (if take 1 s = ''-'' \<or> take 1 s = ''+'' then drop 1 s else s);
          s2 = drop_prefix base s1
      in if s2 = [] \<or> take 1 s2 = ''_'' then None
         else map_option (\<lambda>n. if neg then - int n else int n) (parse_digits base 0 False s2))"

subsection \<open>POSIX paths\<close>

text \<open>\<open>posixpath\<close> on bytes; the separator \<open>bytes_sep\<close> is \<open>/\<close>.\<close>

definition bytes_sep :: char where "bytes_sep = CHR ''/''"

definition basename :: "bytes \<Rightarrow> bytes" where
  "basename p = rev (takeWhile (\<lambda>c. c \<noteq> bytes_sep) (rev p))"

text \<open>\<open>os.path.split(p)[0]\<close> and \<open>os.path.dirname(p)\<close>: up to the last separator, with
  trailing separators removed unless nothing else is left.\<close>

definition dirname :: "bytes \<Rightarrow> bytes" where
  "dirname p =
     (let head = take (length p - length (basename p)) p
      in if head \<noteq> [] \<and> head \<noteq> replicate (length head) bytes_sep
         then rstrip_char bytes_sep head else head)"

definition path_join :: "bytes \<Rightarrow> bytes \<Rightarrow> bytes" where
  "path_join a b =
     (if take 1 b = [bytes_sep] then b
      else if a = [] \<or> last a = bytes_sep then a @ b
      else a @ bytes_sep # b)"

text \<open>\<open>os.path.commonprefix([a, b])\<close>: the longest common prefix, character by character.\<close>

fun commonprefix :: "bytes \<Rightarrow> bytes \<Rightarrow> bytes" where
  "commonprefix (x # xs) (y # ys) = (if x = y then x # commonprefix xs ys else [])"
| "commonprefix _ _ = []"

text \<open>The default \<open>sanitize\<close>: \<open>_sh_quote\<close>, shell quoting as in \<open>shlex\<close>.\<close>

definition safe_char :: "char \<Rightarrow> bool" where
  "safe_char c =
     (let v = (of_char c :: nat) in
      (48 \<le> v \<and> v \<le> 57) \<or> (65 \<le> v \<and> v \<le> 90) \<or> (97 \<le> v \<and> v \<le> 122)
      \<or> c \<in> set ''_@%+=:,./~-'')"

definition sh_quote :: "bytes \<Rightarrow> bytes" where
  "sh_quote s =
     (if s = [] then []
      else if \<forall>c \<in> set s. safe_char c then s
      else CHR 0x27 # concat (map (\<lambda>c. if c = CHR 0x27
               then [CHR 0x27, CHR 0x22, CHR 0x27, CHR 0x22, CHR 0x27] else [c]) s) @ [CHR 0x27])"

section \<open>The channel and the client\<close>

text \<open>
  The channel is the transport library's object; it is modelled by what the client can
  observe of it. What the peer delivers is a script of events: a \<open>Chunk\<close> is a run of
  bytes that one \<open>recv\<close> can return (\<open>recv(n)\<close> returns at most \<open>n\<close> of them and leaves the
  rest), \<open>Timeout\<close> makes the next \<open>recv\<close> raise \<open>socket.timeout\<close>, and at the end of the
  script \<open>recv\<close> returns no bytes, as it does once the peer has closed. Every write and
  every executed command is logged.
\<close>

datatype event = Chunk bytes | Timeout

record channel =
  closed :: bool
  commands :: "bytes list"
  sent :: "bytes list"
  incoming :: "event list"
  stderr_buf :: bytes

definition new_channel :: "event list \<Rightarrow> channel" where
  "new_channel es =
     \<lparr>closed = False, commands = [], sent = [], incoming = es, stderr_buf = []\<rparr>"

text \<open>
  The exceptions that can leave the client. \<open>SCPException msg\<close> carries its message;
  \<open>SCPInvalid msg\<close> is \<open>SCPException("Invalid response from server", msg)\<close>. A message made
  by \<open>asunicode\<close> is kept as the bytes handed to it (the permissive decoding of bytes that
  are not UTF-8 is not modelled).
\<close>

datatype exn =
    SCPException string
  | SCPInvalid bytes
  | SocketTimeout
  | AssertionError
  | TypeError
  | UnicodeEncodeError
  | AttributeError
  | OSError
  | SSHException

definition asunicode :: "bytes \<Rightarrow> string" where
  "asunicode s = s"

text \<open>A path argument is a \<open>str\<close> or a \<open>bytes\<close> object; some operations accept only one.\<close>

datatype pypath = PStr string | PBytes bytes

fun asbytes :: "pypath \<Rightarrow> bytes" where
  "asbytes (PStr s) = s"
| "asbytes (PBytes b) = b"

text \<open>One entry of the list that \<open>getfo\<close> returns.\<close>

record received =
  r_path :: bytes
  r_name :: bytes
  r_utime :: "(int \<times> int) option"
  r_data :: bytes
  r_mode :: int

text \<open>
  The client object. Channel objects live in \<open>store\<close> and \<open>channel\<close> refers to one by its
  index, since the code keeps aliases of the channel (\<open>chan = self.channel\<close>) and closes
  it through them; \<open>transport\<close> holds the sessions that \<open>open_session\<close> will hand out.
  \<open>progress\<close> says whether a callback is configured, and \<open>calls\<close> logs its invocations as
  \<open>(name, size, sent)\<close> (the fourth argument is always \<open>peername\<close>).
\<close>

record client =
  transport :: "channel list"
  store :: "nat \<Rightarrow> channel"
  next_id :: nat
  channel :: "nat option"
  buff_size :: nat
  preserve_times :: bool
  progress :: bool
  calls :: "(bytes \<times> int \<times> int) list"
  recv_dir :: bytes
  depth :: int
  utime :: "(int \<times> int) option"
  dirtimes :: "bytes \<Rightarrow> (int \<times> (int \<times> int) option) option"
  files :: "received list"
  pushed :: int
  sanitize :: "bytes \<Rightarrow> bytes"
  scp_command :: bytes

definition SCP_COMMAND :: bytes where
  "SCP_COMMAND = ''scp''"

text \<open>\<open>SCPClient(transport, buff_size, progress=...)\<close> with the default \<open>sanitize\<close>.\<close>

definition init_client :: "channel list \<Rightarrow> nat \<Rightarrow> bool \<Rightarrow> client" where
  "init_client tr bs pr =
     \<lparr>transport = tr, store = (\<lambda>_. new_channel []), next_id = 0, channel = None,
      buff_size = bs, preserve_times = False, progress = pr, calls = [],
      recv_dir = [], depth = 0, utime = None, dirtimes = (\<lambda>_. None), files = [],
      pushed = 0, sanitize = sh_quote, scp_command = SCP_COMMAND\<rparr>"

type_synonym 'a result = "(exn + 'a) \<times> client"

subsection \<open>Channel primitives\<close>

text \<open>Each fails with \<open>AttributeError\<close> when \<open>self.channel\<close> is \<open>None\<close>.\<close>

definition chan_recv :: "nat \<Rightarrow> channel \<Rightarrow> (exn + bytes) \<times> channel" where
  "chan_recv n c =
     (case incoming c of
        [] \<Rightarrow> (Inr [], c)
      | Timeout # es \<Rightarrow> (Inl SocketTimeout, c\<lparr>incoming := es\<rparr>)
      | Chunk b # es \<Rightarrow>
          if length b \<le> n then (Inr b, c\<lparr>incoming := es\<rparr>)
          else (Inr (take n b), c\<lparr>incoming := Chunk (drop n b) # es\<rparr>))"

definition recv :: "nat \<Rightarrow> client \<Rightarrow> bytes result" where
  "recv n s =
     (case channel s of
        None \<Rightarrow> (Inl AttributeError, s)
      | Some i \<Rightarrow>
          (case chan_recv n (store s i) of
             (r, c) \<Rightarrow> (r, s\<lparr>store := (store s)(i := c)\<rparr>)))"

definition sendall :: "bytes \<Rightarrow> client \<Rightarrow> unit result" where
  "sendall d s =
     (case channel s of
        None \<Rightarrow> (Inl AttributeError, s)
      | Some i \<Rightarrow>
          (Inr (), s\<lparr>store := (store s)(i := (store s i)\<lparr>sent := sent (store s i) @ [d]\<rparr>)\<rparr>))"

definition exec_command :: "bytes \<Rightarrow> client \<Rightarrow> unit result" where
  "exec_command cmd s =
     (case channel s of
        None \<Rightarrow> (Inl AttributeError, s)
      | Some i \<Rightarrow>
          (Inr (), s\<lparr>store := (store s)(i := (store s i)\<lparr>commands := commands (store s i) @ [cmd]\<rparr>)\<rparr>))"

text \<open>\<open>chan.close()\<close> on the channel object: \<open>self.channel\<close> keeps referring to it.\<close>

definition chan_close :: "client \<Rightarrow> unit result" where
  "chan_close s =
     (case channel s of
        None \<Rightarrow> (Inl AttributeError, s)
      | Some i \<Rightarrow> (Inr (), s\<lparr>store := (store s)(i := (store s i)\<lparr>closed := True\<rparr>)\<rparr>))"

text \<open>\<open>self._open()\<close>: a new session unless the current channel is still open.\<close>

definition open_chan :: "client \<Rightarrow> unit result" where
  "open_chan s =
     (if channel s = None \<or> closed (store s (the (channel s)))
      then (case transport s of
              [] \<Rightarrow> (Inl SSHException, s)
            | c # cs \<Rightarrow>
                (Inr (), s\<lparr>transport := cs, store := (store s)(next_id s := c),
                           next_id := Suc (next_id s), channel := Some (next_id s)\<rparr>))
      else (Inr (), s))"

text \<open>\<open>self.close()\<close>: close the channel, if there is one, and forget it.\<close>

definition close :: "client \<Rightarrow> client" where
  "close s =
     (case channel s of
        None \<Rightarrow> s
      | Some i \<Rightarrow> s\<lparr>store := (store s)(i := (store s i)\<lparr>closed := True\<rparr>), channel := None\<rparr>)"

text \<open>A call of the progress callback, when one is configured.\<close>

definition report :: "bytes \<Rightarrow> int \<Rightarrow> int \<Rightarrow> client \<Rightarrow> client" where
  "report name tot pos s =
     (if progress s then s\<lparr>calls := calls s @ [(name, tot, pos)]\<rparr> else s)"

subsection \<open>The acknowledgement\<close>

definition recv_confirm :: "client \<Rightarrow> unit result" where
  "recv_confirm s =
     (case recv 1 s of
        (Inl e, s1) \<Rightarrow>
          if e = SocketTimeout then (Inl (SCPException ''Timeout waiting for scp response''), s1)
          else (Inl e, s1)
      | (Inr msg, s1) \<Rightarrow>
          if msg = [NUL] then (Inr (), s1)
          else if msg = [SOH] then (Inl (SCPException (asunicode (drop 1 msg))), s1)
          else (case channel s1 of
                  None \<Rightarrow> (Inl AttributeError, s1)
                | Some i \<Rightarrow>
                    if stderr_buf (store s1 i) \<noteq> []
                    then (Inl (SCPException (asunicode (take 512 (stderr_buf (store s1 i))))),
                          s1\<lparr>store := (store s1)(i := (store s1 i)
                                \<lparr>stderr_buf := drop 512 (stderr_buf (store s1 i))\<rparr>)\<rparr>)
                    else if msg = [] then (Inl (SCPException ''No response from server''), s1)
                    else (Inl (SCPInvalid msg), s1)))"

section \<open>The local filesystem\<close>

text \<open>
  The filesystem is outside the client; it is given by what \<open>os.stat\<close>, \<open>open\<close>,
  \<open>os.path.isdir\<close> and \<open>os.walk\<close> return for a path (\<open>None\<close>: the call raises \<open>OSError\<close>,
  or the path is no directory). Times are the seconds that \<open>int()\<close> makes of them.
\<close>

record stat =
  st_mode :: nat
  st_size :: int
  st_atime :: int
  st_mtime :: int

datatype tree = Tree (nondirs: "bytes list") (subdirs: "(bytes \<times> tree) list")

record fsys =
  fs_stat :: "bytes \<Rightarrow> stat option"
  fs_open :: "bytes \<Rightarrow> bytes option"
  fs_tree :: "bytes \<Rightarrow> tree option"

text \<open>\<open>os.walk(tp)\<close>, top-down: a directory, then each of its subdirectories in turn.\<close>

fun walk :: "bytes \<Rightarrow> tree \<Rightarrow> (bytes \<times> bytes list \<times> bytes list) list" where
  "walk tp (Tree fls ds) =
     (tp, map fst ds, fls) # concat (map (\<lambda>d. walk (path_join tp (fst d)) (snd d)) ds)"

text \<open>An open binary file: its content and the read position.\<close>

record fileobj =
  content :: bytes
  pos :: nat

section \<open>Sending\<close>

definition read_stats :: "fsys \<Rightarrow> bytes \<Rightarrow> (string \<times> int \<times> int \<times> int) option" where
  "read_stats fs name =
     (case fs_stat fs name of
        None \<Rightarrow> None
      | Some st \<Rightarrow> Some (fmt_04o (st_mode st), st_size st, st_mtime st, st_atime st))"

definition time_line :: "int \<Rightarrow> int \<Rightarrow> bytes" where
  "time_line mtime atime = ''T'' @ fmt_d mtime @ '' 0 '' @ fmt_d atime @ '' 0'' @ [NL]"

definition send_time :: "int \<Rightarrow> int \<Rightarrow> client \<Rightarrow> unit result" where
  "send_time mtime atime s =
     (case sendall (time_line mtime atime) s of
        (Inl e, s1) \<Rightarrow> (Inl e, s1)
      | (Inr _, s1) \<Rightarrow> recv_confirm s1)"

text \<open>The header of a file: \<open>f"C{mode} {size} {basename}\n"\<close>.\<close>

definition file_line :: "string \<Rightarrow> int \<Rightarrow> string \<Rightarrow> string" where
  "file_line mode sz bn = ''C'' @ mode @ '' '' @ fmt_d sz @ '' '' @ bn @ [NL]"

text \<open>
  The body loop of \<open>_send_file\<close>. It ends only when the file position reaches \<open>size\<close>,
  so it runs forever (\<open>None\<close>) on a file shorter than its declared size or with a buffer
  of size 0.
\<close>

partial_function (option) send_body ::
  "bytes \<Rightarrow> int \<Rightarrow> fileobj \<Rightarrow> int \<Rightarrow> client \<Rightarrow> unit result option" where
  "send_body bn sz fl file_pos s =
     (if file_pos < sz
      then (let data = take (buff_size s) (drop (pos fl) (content fl));
                fl1 = fl\<lparr>pos := pos fl + length data\<rparr>
            in case sendall data s of
                 (Inl e, s1) \<Rightarrow> Some (Inl e, s1)
               | (Inr _, s1) \<Rightarrow>
                   send_body bn sz fl1 (int (pos fl1)) (report bn sz (int (pos fl1)) s1))
      else Some (Inr (), s))"

declare send_body.simps [code]

definition send_file ::
  "fileobj \<Rightarrow> pypath \<Rightarrow> string \<Rightarrow> int \<Rightarrow> client \<Rightarrow> unit result option" where
  "send_file fl name mode sz s =
     (case name of
        PBytes _ \<Rightarrow> Some (Inl TypeError, s)
      | PStr n \<Rightarrow>
          (let bn = quote_nl (basename n) in
           case encode_ascii (file_line mode sz bn) of
             None \<Rightarrow> Some (Inl UnicodeEncodeError, s)
           | Some command \<Rightarrow>
               (case sendall command s of
                  (Inl e, s1) \<Rightarrow> Some (Inl e, s1)
                | (Inr _, s1) \<Rightarrow>
                    (case recv_confirm s1 of
                       (Inl e, s2) \<Rightarrow> Some (Inl e, s2)
                     | (Inr _, s2) \<Rightarrow>
                         (case send_body bn sz fl 0
                                 (if sz = 0 then report bn 1 1 s2 else report bn sz 0 s2) of
                            None \<Rightarrow> None
                          | Some (Inl e, s3) \<Rightarrow> Some (Inl e, s3)
                          | Some (Inr _, s3) \<Rightarrow>
                              (case sendall [NUL] s3 of
                                 (Inl e, s4) \<Rightarrow> Some (Inl e, s4)
                               | (Inr _, s4) \<Rightarrow> Some (recv_confirm s4)))))))"

fun send_files :: "fsys \<Rightarrow> pypath list \<Rightarrow> client \<Rightarrow> unit result option" where
  "send_files fs [] s = Some (Inr (), s)"
| "send_files fs (name # rest) s =
     (case read_stats fs (asbytes name) of
        None \<Rightarrow> Some (Inl OSError, s)
      | Some (mode, sz, mtime, atime) \<Rightarrow>
          (case (if preserve_times s then send_time mtime atime s else (Inr (), s)) of
             (Inl e, s1) \<Rightarrow> Some (Inl e, s1)
           | (Inr _, s1) \<Rightarrow>
               (case fs_open fs (asbytes name) of
                  None \<Rightarrow> Some (Inl OSError, s1)
                | Some c \<Rightarrow>
                    (case send_file \<lparr>content = c, pos = 0\<rparr> name mode sz s1 of
                       None \<Rightarrow> None
                     | Some (Inl e, s2) \<Rightarrow> Some (Inl e, s2)
                     | Some (Inr _, s2) \<Rightarrow> send_files fs rest s2))))"

text \<open>The directory record: \<open>f"D{mode} 0 {basename}\n"\<close>, where \<open>basename\<close> is a bytes object.\<close>

definition dir_line :: "string \<Rightarrow> bytes \<Rightarrow> string" where
  "dir_line mode bn = ''D'' @ mode @ '' 0 '' @ repr_bytes bn @ [NL]"

definition send_pushd :: "fsys \<Rightarrow> bytes \<Rightarrow> client \<Rightarrow> unit result" where
  "send_pushd fs directory s =
     (case read_stats fs directory of
        None \<Rightarrow> (Inl OSError, s)
      | Some (mode, sz, mtime, atime) \<Rightarrow>
          (let bn = quote_nl (basename directory) in
           case (if preserve_times s then send_time mtime atime s else (Inr (), s)) of
             (Inl e, s1) \<Rightarrow> (Inl e, s1)
           | (Inr _, s1) \<Rightarrow>
               (case sendall (dir_line mode bn) s1 of
                  (Inl e, s2) \<Rightarrow> (Inl e, s2)
                | (Inr _, s2) \<Rightarrow>
                    (case recv_confirm s2 of
                       (Inl e, s3) \<Rightarrow> (Inl e, s3)
                     | (Inr _, s3) \<Rightarrow> (Inr (), s3\<lparr>pushed := pushed s3 + 1\<rparr>)))))"

definition send_popd :: "client \<Rightarrow> unit result" where
  "send_popd s =
     (case sendall (''E'' @ [NL]) s of
        (Inl e, s1) \<Rightarrow> (Inl e, s1)
      | (Inr _, s1) \<Rightarrow>
          (case recv_confirm s1 of
             (Inl e, s2) \<Rightarrow> (Inl e, s2)
           | (Inr _, s2) \<Rightarrow> (Inr (), s2\<lparr>pushed := pushed s2 - 1\<rparr>)))"

subsection \<open>What is left of the peer's script\<close>

text \<open>
  The loops that wait for an acknowledgement in every round stop because each round
  takes at least one byte of what the peer delivers.
\<close>

definition in_size :: "event list \<Rightarrow> nat" where
  "in_size es = sum_list (map (\<lambda>e. case e of Chunk b \<Rightarrow> Suc (length b) | Timeout \<Rightarrow> 1) es)"

definition pending :: "client \<Rightarrow> nat" where
  "pending s = (case channel s of None \<Rightarrow> 0 | Some i \<Rightarrow> in_size (incoming (store s i)))"

lemma chan_recv_le:
  "chan_recv n c = (r, c') \<Longrightarrow> in_size (incoming c') \<le> in_size (incoming c)"
  by (auto simp: chan_recv_def in_size_def split: list.splits event.splits if_splits)

lemma chan_recv_less:
  "chan_recv n c = (Inr b, c') \<Longrightarrow> b \<noteq> [] \<Longrightarrow> in_size (incoming c') < in_size (incoming c)"
  by (auto simp: chan_recv_def in_size_def split: list.splits event.splits if_splits)

lemma recv_channel: "recv n s = (r, s') \<Longrightarrow> channel s' = channel s"
  by (auto simp: recv_def split: option.splits prod.splits)

lemma recv_le: "recv n s = (r, s') \<Longrightarrow> pending s' \<le> pending s"
  by (auto simp: recv_def pending_def split: option.splits prod.splits dest: chan_recv_le)

lemma recv_less: "recv n s = (Inr b, s') \<Longrightarrow> b \<noteq> [] \<Longrightarrow> pending s' < pending s"
  by (auto simp: recv_def pending_def split: option.splits prod.splits dest: chan_recv_less)

lemma sendall_channel: "sendall d s = (r, s') \<Longrightarrow> channel s' = channel s"
  by (auto simp: sendall_def split: option.splits)

lemma sendall_pending: "sendall d s = (r, s') \<Longrightarrow> pending s' = pending s"
  by (auto simp: sendall_def pending_def split: option.splits)

lemma sendall_pushed: "sendall d s = (r, s') \<Longrightarrow> pushed s' = pushed s"
  by (auto simp: sendall_def split: option.splits)

lemma recv_pushed: "recv n s = (r, s') \<Longrightarrow> pushed s' = pushed s"
  by (auto simp: recv_def split: option.splits prod.splits)

lemma recv_confirm_ok:
  "recv_confirm s = (Inr u, s') \<Longrightarrow> recv 1 s = (Inr [NUL], s')"
  by (auto simp: recv_confirm_def split: prod.splits sum.splits if_splits option.splits)

lemma recv_confirm_less: "recv_confirm s = (Inr u, s') \<Longrightarrow> pending s' < pending s"
  by (drule recv_confirm_ok) (auto dest: recv_less)

lemma send_popd_ok:
  assumes "send_popd s = (Inr u, s')"
  shows "pending s' < pending s" and "pushed s' = pushed s - 1"
proof -
  from assms obtain s1 s2 where a: "sendall (''E'' @ [NL]) s = (Inr (), s1)"
    and b: "recv_confirm s1 = (Inr (), s2)" and c: "s' = s2\<lparr>pushed := pushed s2 - 1\<rparr>"
    by (auto simp: send_popd_def split: prod.splits sum.splits)
  from b have "pending s2 < pending s1" by (rule recv_confirm_less)
  moreover from a have "pending s1 = pending s" by (rule sendall_pending)
  moreover from c have "pending s' = pending s2" by (simp add: pending_def split: option.splits)
  ultimately show "pending s' < pending s" by simp
  from b have "pushed s2 = pushed s1"
    by (auto dest!: recv_confirm_ok dest: recv_pushed)
  with a c show "pushed s' = pushed s - 1"
    by (auto dest: sendall_pushed)
qed

subsection \<open>Directories\<close>

text \<open>The loop of \<open>_chdir\<close>: one \<open>E\<close> record for every step from \<open>cur_dir\<close> up to \<open>common\<close>.\<close>

function chdir_loop :: "bytes \<Rightarrow> bytes \<Rightarrow> client \<Rightarrow> unit result" where
  "chdir_loop cur_dir common s =
     (if cur_dir \<noteq> common
      then (case send_popd s of
              (Inl e, s1) \<Rightarrow> (Inl e, s1)
            | (Inr _, s1) \<Rightarrow> chdir_loop (dirname cur_dir) common s1)
      else (Inr (), s))"
  by pat_completeness auto
termination
  by (relation "measure (\<lambda>(c, m, s). pending s)") (auto dest: send_popd_ok(1) [OF sym])

declare chdir_loop.simps [simp del]

definition chdir :: "fsys \<Rightarrow> bytes \<Rightarrow> bytes \<Rightarrow> client \<Rightarrow> unit result" where
  "chdir fs from_dir to_dir s =
     (let common = dirname (commonprefix (from_dir @ [bytes_sep]) (to_dir @ [bytes_sep]));
          cur_dir = rstrip_char bytes_sep from_dir
      in case chdir_loop cur_dir common s of
           (Inl e, s1) \<Rightarrow> (Inl e, s1)
         | (Inr _, s1) \<Rightarrow> send_pushd fs to_dir s1)"

text \<open>The loop over \<open>os.walk(base)\<close> in \<open>_send_recursive\<close>.\<close>

fun walk_loop ::
  "fsys \<Rightarrow> bytes \<Rightarrow> (bytes \<times> bytes list \<times> bytes list) list \<Rightarrow> client \<Rightarrow> unit result option" where
  "walk_loop fs last_dir [] s = Some (Inr (), s)"
| "walk_loop fs last_dir ((root, dirs, fls) # rest) s =
     (case (if \<not> (root \<noteq> [] \<and> last root = bytes_sep) then chdir fs last_dir root s
            else (Inr (), s)) of
        (Inl e, s1) \<Rightarrow> Some (Inl e, s1)
      | (Inr _, s1) \<Rightarrow>
          (case send_files fs (map (\<lambda>f. PBytes (path_join root f)) fls) s1 of
             None \<Rightarrow> None
           | Some (Inl e, s2) \<Rightarrow> Some (Inl e, s2)
           | Some (Inr _, s2) \<Rightarrow> walk_loop fs root rest s2))"

text \<open>\<open>while self._pushed > 0: self._send_popd()\<close>.\<close>

function pop_all :: "client \<Rightarrow> unit result" where
  "pop_all s =
     (if pushed s > 0
      then (case send_popd s of
              (Inl e, s1) \<Rightarrow> (Inl e, s1)
            | (Inr _, s1) \<Rightarrow> pop_all s1)
      else (Inr (), s))"
  by pat_completeness auto
termination
  by (relation "measure (\<lambda>s. nat (pushed s))") (auto dest: send_popd_ok(2) [OF sym])

declare pop_all.simps [simp del]

fun send_recursive :: "fsys \<Rightarrow> pypath list \<Rightarrow> client \<Rightarrow> unit result option" where
  "send_recursive fs [] s = Some (Inr (), s)"
| "send_recursive fs (base # rest) s =
     (case fs_tree fs (asbytes base) of
        None \<Rightarrow>
          (case send_files fs [PBytes (asbytes base)] s of
             None \<Rightarrow> None
           | Some (Inl e, s1) \<Rightarrow> Some (Inl e, s1)
           | Some (Inr _, s1) \<Rightarrow> send_recursive fs rest s1)
      | Some t \<Rightarrow>
          (case walk_loop fs (asbytes base) (walk (asbytes base) t) s of
             None \<Rightarrow> None
           | Some (Inl e, s1) \<Rightarrow> Some (Inl e, s1)
           | Some (Inr _, s1) \<Rightarrow>
               (case pop_all s1 of
                  (Inl e, s2) \<Rightarrow> Some (Inl e, s2)
                | (Inr _, s2) \<Rightarrow> send_recursive fs rest s2)))"

subsection \<open>The upload operations\<close>

definition put_command :: "client \<Rightarrow> bool \<Rightarrow> pypath \<Rightarrow> bytes" where
  "put_command s recursive remote_path =
     scp_command s @ '' '' @ (if recursive then ''-r -t '' else ''-t '')
       @ sanitize s (asbytes remote_path)"

definition put :: "fsys \<Rightarrow> pypath list \<Rightarrow> pypath \<Rightarrow> bool \<Rightarrow> bool \<Rightarrow> client \<Rightarrow> unit result option" where
  "put fs fls remote_path recursive preserve s =
     (case open_chan (s\<lparr>preserve_times := preserve\<rparr>) of
        (Inl e, s1) \<Rightarrow> Some (Inl e, s1)
      | (Inr _, s1) \<Rightarrow>
          (case exec_command (put_command s1 recursive remote_path) (s1\<lparr>pushed := 0\<rparr>) of
             (Inl e, s2) \<Rightarrow> Some (Inl e, s2)
           | (Inr _, s2) \<Rightarrow>
               (case recv_confirm s2 of
                  (Inl e, s3) \<Rightarrow> Some (Inl e, s3)
                | (Inr _, s3) \<Rightarrow>
                    (case (if recursive then send_recursive fs fls s3 else send_files fs fls s3) of
                       None \<Rightarrow> None
                     | Some (Inl e, s4) \<Rightarrow> Some (Inl e, s4)
                     | Some (Inr _, s4) \<Rightarrow> Some (Inr (), close s4)))))"

definition putfo_command :: "client \<Rightarrow> pypath \<Rightarrow> bytes" where
  "putfo_command s remote_path = scp_command s @ '' -v -t '' @ sanitize s (asbytes remote_path)"

text \<open>\<open>putfo\<close>; \<open>sz = None\<close> stands for the default, the bytes from the position to the end.\<close>

definition putfo :: "fileobj \<Rightarrow> pypath \<Rightarrow> string \<Rightarrow> int option \<Rightarrow> client \<Rightarrow> unit result option" where
  "putfo fl remote_path mode sz s =
     (let sz1 = (case sz of None \<Rightarrow> int (length (content fl)) - int (pos fl) | Some n \<Rightarrow> n) in
      case open_chan s of
        (Inl e, s1) \<Rightarrow> Some (Inl e, s1)
      | (Inr _, s1) \<Rightarrow>
          (case exec_command (putfo_command s1 remote_path) s1 of
             (Inl e, s2) \<Rightarrow> Some (Inl e, s2)
           | (Inr _, s2) \<Rightarrow>
               (case recv_confirm s2 of
                  (Inl e, s3) \<Rightarrow> Some (Inl e, s3)
                | (Inr _, s3) \<Rightarrow>
                    (case send_file fl remote_path mode sz1 s3 of
                       None \<Rightarrow> None
                     | Some (Inl e, s4) \<Rightarrow> Some (Inl e, s4)
                     | Some (Inr _, s4) \<Rightarrow> Some (Inr (), close s4)))))"

section \<open>Receiving\<close>

subsection \<open>The parsers of the three records with fields\<close>

text \<open>
  Each is the \<open>try\<close> block of its handler; \<open>None\<close> is any exception raised in it
  (\<open>ValueError\<close> from \<open>int\<close>, \<open>IndexError\<close> from a missing field), which the bare
  \<open>except\<close> catches. \<open>parse_time\<close> returns the pair as \<open>_set_time\<close> stores it:
  access time first, and the modification time in its place when it is 0.
\<close>

definition parse_time :: "bytes \<Rightarrow> (int \<times> int) option" where
  "parse_time cmd =
     (let times = split_sp cmd in
      case py_int 10 (times ! 0) of
        None \<Rightarrow> None
      | Some mtime \<Rightarrow>
          if length times < 3 then None
          else (case py_int 10 (times ! 2) of
                  None \<Rightarrow> None
                | Some atime \<Rightarrow> Some (if atime \<noteq> 0 then atime else mtime, mtime)))"

definition parse_file :: "bytes \<Rightarrow> (int \<times> int \<times> bytes) option" where
  "parse_file cmd =
     (let parts = split_max 2 (strip cmd) in
      case py_int 8 (parts ! 0) of
        None \<Rightarrow> None
      | Some mode \<Rightarrow>
          if length parts < 2 then None
          else (case py_int 10 (parts ! 1) of
                  None \<Rightarrow> None
                | Some sz \<Rightarrow> if length parts < 3 then None else Some (mode, sz, parts ! 2)))"

definition parse_dir :: "bytes \<Rightarrow> (int \<times> bytes) option" where
  "parse_dir cmd =
     (let parts = split_max 2 cmd in
      case py_int 8 (parts ! 0) of
        None \<Rightarrow> None
      | Some mode \<Rightarrow> if length parts < 3 then None else Some (mode, parts ! 2))"

subsection \<open>The handlers\<close>

definition set_time :: "bytes \<Rightarrow> client \<Rightarrow> unit result" where
  "set_time cmd s =
     (case parse_time cmd of
        None \<Rightarrow>
          (case sendall [SOH] s of
             (Inl e, s1) \<Rightarrow> (Inl e, s1)
           | (Inr _, s1) \<Rightarrow> (Inl (SCPException ''Bad time format''), s1))
      | Some u \<Rightarrow> (Inr (), s\<lparr>utime := Some u\<rparr>))"

text \<open>
  The body loop of \<open>_recv_file\<close>: \<open>acc\<close> is what has been written to \<open>file_hdl\<close>, whose
  position \<open>pos\<close> is its length.
\<close>

function recv_body :: "bytes \<Rightarrow> int \<Rightarrow> nat \<Rightarrow> bytes \<Rightarrow> client \<Rightarrow> bytes result" where
  "recv_body name sz buff acc s =
     (if int (length acc) < sz
      then (let buff1 = (if sz - int (length acc) \<le> int buff
                         then nat (sz - int (length acc)) else buff)
            in case recv buff1 s of
                 (Inl e, s1) \<Rightarrow> (Inl e, s1)
               | (Inr data, s1) \<Rightarrow>
                   if data = [] then (Inl (SCPException ''Underlying channel was closed''), s1)
                   else recv_body name sz buff1 (acc @ data)
                          (report name sz (int (length (acc @ data))) s1))
      else (Inr acc, s))"
  by pat_completeness auto
termination
  by (relation "measure (\<lambda>(name, sz, buff, acc, s). nat (sz - int (length acc)))") auto

declare recv_body.simps [simp del]

text \<open>
  The \<open>try\<close> block of \<open>_recv_file\<close>: the body, then the status that follows it. It
  returns the bytes written to \<open>file_hdl\<close>.
\<close>

definition recv_data :: "bytes \<Rightarrow> int \<Rightarrow> client \<Rightarrow> bytes result" where
  "recv_data name sz s =
     (case recv_body name sz (buff_size s) [] s of
        (Inl e, s1) \<Rightarrow> (Inl e, s1)
      | (Inr data, s1) \<Rightarrow>
          (case recv 512 s1 of
             (Inl e, s2) \<Rightarrow> (Inl e, s2)
           | (Inr msg, s2) \<Rightarrow>
               if msg \<noteq> [] \<and> take 1 msg \<noteq> [NUL]
               then (Inl (SCPException (asunicode (drop 1 msg))), s2)
               else (Inr data, s2)))"

text \<open>\<open>except SocketTimeout: chan.close(); raise SCPException(...)\<close>.\<close>

definition on_timeout :: "client \<Rightarrow> 'a result" where
  "on_timeout s =
     (case chan_close s of
        (Inl e, s1) \<Rightarrow> (Inl e, s1)
      | (Inr _, s1) \<Rightarrow> (Inl (SCPException ''Error receiving, socket.timeout''), s1))"

definition recv_file :: "bytes \<Rightarrow> client \<Rightarrow> unit result" where
  "recv_file cmd s =
     (case parse_file cmd of
        None \<Rightarrow>
          (case sendall [SOH] s of
             (Inl e, s1) \<Rightarrow> (Inl e, s1)
           | (Inr _, s1) \<Rightarrow>
               (case chan_close s1 of
                  (Inl e, s2) \<Rightarrow> (Inl e, s2)
                | (Inr _, s2) \<Rightarrow> (Inl (SCPException ''Bad file format''), s2)))
      | Some (mode, sz, name) \<Rightarrow>
          (let path = path_join (recv_dir s) name in
           case sendall [NUL] (if sz = 0 then report name 1 1 s else report name sz 0 s) of
             (Inl e, s1) \<Rightarrow> (Inl e, s1)
           | (Inr _, s1) \<Rightarrow>
               (case recv_data name sz s1 of
                  (Inl e, s2) \<Rightarrow> if e = SocketTimeout then on_timeout s2 else (Inl e, s2)
                | (Inr data, s2) \<Rightarrow>
                    (Inr (), s2\<lparr>files := files s2 @
                               [\<lparr>r_path = path, r_name = name, r_utime = utime s2,
                                 r_data = data, r_mode = mode\<rparr>],
                             utime := None\<rparr>))))"

definition recv_pushd :: "bytes \<Rightarrow> client \<Rightarrow> unit result" where
  "recv_pushd cmd s =
     (case parse_dir cmd of
        None \<Rightarrow>
          (case sendall [SOH] s of
             (Inl e, s1) \<Rightarrow> (Inl e, s1)
           | (Inr _, s1) \<Rightarrow> (Inl (SCPException ''Bad directory format''), s1))
      | Some (mode, name) \<Rightarrow>
          (let path = path_join (recv_dir s) name in
           (Inr (), s\<lparr>depth := depth s + 1,
                      dirtimes := (dirtimes s)(path \<mapsto> (mode, utime s)),
                      utime := None, recv_dir := path\<rparr>)))"

definition recv_popd :: "client \<Rightarrow> client" where
  "recv_popd s =
     (if depth s > 0 then s\<lparr>depth := depth s - 1, recv_dir := dirname (recv_dir s)\<rparr> else s)"

text \<open>The dispatch of \<open>_recv_all\<close> on the first byte of a record.\<close>

definition dispatch :: "bytes \<Rightarrow> client \<Rightarrow> unit result" where
  "dispatch msg s =
     (let code = take 1 msg; arg = drop 1 msg in
      if code = ''C'' then recv_file arg s
      else if code = ''T'' then set_time arg s
      else if code = ''D'' then recv_pushd arg s
      else if code = ''E'' then (Inr (), recv_popd s)
      else (Inl (SCPException (asunicode arg)), s))"

subsection \<open>The receive loop\<close>

lemma pending_report [simp]: "pending (report name t p s) = pending s"
  by (simp add: report_def pending_def split: option.splits)

lemma recv_body_le: "recv_body name sz buff acc s = (r, s') \<Longrightarrow> pending s' \<le> pending s"
proof (induction name sz buff acc s rule: recv_body.induct)
  case (1 name sz buff acc s)
  show ?case
  proof (cases "int (length acc) < sz")
    case False
    with "1.prems" show ?thesis by (simp add: recv_body.simps [of name sz buff acc s])
  next
    case True
    define buff1 where "buff1 = (if sz - int (length acc) \<le> int buff
                                 then nat (sz - int (length acc)) else buff)"
    obtain q s1 where rc: "recv buff1 s = (q, s1)" by (cases "recv buff1 s")
    then have le: "pending s1 \<le> pending s" by (rule recv_le)
    show ?thesis
    proof (cases q)
      case (Inl e)
      with True rc "1.prems" le show ?thesis
        by (simp add: recv_body.simps [of name sz buff acc s] buff1_def [symmetric])
    next
      case (Inr data)
      show ?thesis
      proof (cases "data = []")
        case True
        with \<open>int (length acc) < sz\<close> Inr rc "1.prems" le show ?thesis
          by (simp add: recv_body.simps [of name sz buff acc s] buff1_def [symmetric])
      next
        case False
        with True Inr rc "1.prems"
        have "recv_body name sz buff1 (acc @ data)
                (report name sz (int (length (acc @ data))) s1) = (r, s')"
          by (simp add: recv_body.simps [of name sz buff acc s] buff1_def [symmetric])
        from "1.IH" [OF True buff1_def rc [symmetric] Inr False this] le
        show ?thesis by simp
      qed
    qed
  qed
qed

lemma recv_data_le: "recv_data name sz s = (r, s') \<Longrightarrow> pending s' \<le> pending s"
  by (auto simp: recv_data_def split: prod.splits sum.splits if_splits
           dest!: recv_body_le recv_le)

lemma recv_file_ok:
  assumes "recv_file cmd s = (Inr u, s')"
  obtains mode sz name s1 data s2 where
    "parse_file cmd = Some (mode, sz, name)"
    "sendall [NUL] (if sz = 0 then report name 1 1 s else report name sz 0 s) = (Inr (), s1)"
    "recv_data name sz s1 = (Inr data, s2)"
    "s' = s2\<lparr>files := files s2 @
             [\<lparr>r_path = path_join (recv_dir s) name, r_name = name, r_utime = utime s2,
               r_data = data, r_mode = mode\<rparr>], utime := None\<rparr>"
proof -
  from assms obtain mode sz name where p: "parse_file cmd = Some (mode, sz, name)"
    by (cases "parse_file cmd") (auto simp: recv_file_def split: prod.splits sum.splits)
  define s0 where "s0 = (if sz = 0 then report name 1 1 s else report name sz 0 s)"
  obtain q1 s1 where a: "sendall [NUL] s0 = (q1, s1)" by (cases "sendall [NUL] s0")
  obtain q2 s2 where b: "recv_data name sz s1 = (q2, s2)" by (cases "recv_data name sz s1")
  from assms p a have q1: "q1 = Inr ()"
    by (cases q1) (simp_all add: recv_file_def s0_def [symmetric])
  from assms p a b q1 obtain data where q2: "q2 = Inr data"
    by (cases q2) (auto simp: recv_file_def s0_def [symmetric] on_timeout_def
                        split: prod.splits sum.splits if_splits)
  from assms p a b q1 q2
  have "s' = s2\<lparr>files := files s2 @
             [\<lparr>r_path = path_join (recv_dir s) name, r_name = name, r_utime = utime s2,
               r_data = data, r_mode = mode\<rparr>], utime := None\<rparr>"
    by (simp add: recv_file_def s0_def [symmetric])
  with that p a b q1 q2 show thesis
    unfolding s0_def by blast
qed

lemma recv_file_le:
  assumes "recv_file cmd s = (Inr u, s')"
  shows "pending s' \<le> pending s"
proof -
  from assms obtain mode sz name s1 data s2 where
    a: "sendall [NUL] (if sz = 0 then report name 1 1 s else report name sz 0 s) = (Inr (), s1)"
    and b: "recv_data name sz s1 = (Inr data, s2)"
    and d: "s' = s2\<lparr>files := files s2 @
                 [\<lparr>r_path = path_join (recv_dir s) name, r_name = name, r_utime = utime s2,
                   r_data = data, r_mode = mode\<rparr>], utime := None\<rparr>"
    by (rule recv_file_ok)
  from a have "pending s1 = pending s"
    by (auto dest!: sendall_pending split: if_splits)
  moreover from b have "pending s2 \<le> pending s1" by (rule recv_data_le)
  moreover from d have "pending s' = pending s2" by (simp add: pending_def split: option.splits)
  ultimately show ?thesis by simp
qed

lemma set_time_le: "set_time cmd s = (Inr u, s') \<Longrightarrow> pending s' \<le> pending s"
  by (cases "parse_time cmd"; cases "sendall [SOH] s"; cases "fst (sendall [SOH] s)")
     (auto simp: set_time_def pending_def split: option.splits)

lemma recv_pushd_le: "recv_pushd cmd s = (Inr u, s') \<Longrightarrow> pending s' \<le> pending s"
  by (cases "parse_dir cmd"; cases "sendall [SOH] s"; cases "fst (sendall [SOH] s)")
     (auto simp: recv_pushd_def pending_def Let_def split: option.splits)

lemma recv_popd_le: "pending (recv_popd s) \<le> pending s"
  by (simp add: recv_popd_def pending_def split: option.splits)

lemma dispatch_le:
  assumes "dispatch msg s = (Inr u, s')"
  shows "pending s' \<le> pending s"
proof -
  consider (C) "recv_file (drop 1 msg) s = (Inr u, s')"
    | (T) "set_time (drop 1 msg) s = (Inr u, s')"
    | (D) "recv_pushd (drop 1 msg) s = (Inr u, s')"
    | (E) "s' = recv_popd s"
    using assms unfolding dispatch_def Let_def
    by (cases "take 1 msg = ''C''"; cases "take 1 msg = ''T''"; cases "take 1 msg = ''D''";
        cases "take 1 msg = ''E''") simp_all
  then show ?thesis
  proof cases
    case C
    then show ?thesis by (rule recv_file_le)
  next
    case T
    then show ?thesis by (rule set_time_le)
  next
    case D
    then show ?thesis by (rule recv_pushd_le)
  next
    case E
    then show ?thesis by (simp add: recv_popd_le)
  qed
qed

function recv_all :: "client \<Rightarrow> unit result" where
  "recv_all s =
     (case channel s of
        None \<Rightarrow> (Inl AttributeError, s)
      | Some i \<Rightarrow>
          if closed (store s i) then (Inr (), s)
          else (case sendall [NUL] s of
                  (Inl e, s1) \<Rightarrow> (Inl e, s1)
                | (Inr _, s1) \<Rightarrow>
                    (case recv 1024 s1 of
                       (Inl e, s2) \<Rightarrow> (Inl e, s2)
                     | (Inr msg, s2) \<Rightarrow>
                         if msg = [] then (Inr (), s2)
                         else if last msg \<noteq> NL then (Inl AssertionError, s2)
                         else (case dispatch (butlast msg) s2 of
                                 (Inl e, s3) \<Rightarrow> (Inl e, s3)
                               | (Inr _, s3) \<Rightarrow> recv_all s3))))"
  by pat_completeness auto
termination
proof (relation "measure pending")
  show "wf (measure pending)" by simp
next
  fix s i x y x2 xa ya x2a xb yb x2b
  assume "(x, y) = sendall [NUL] s" and "(xa, ya) = recv 1024 y" and "xa = Inr x2a"
    and "x2a \<noteq> []" and "(xb, yb) = dispatch (butlast x2a) ya" and "xb = Inr x2b"
  then have "pending y = pending s" and "pending ya < pending y" and "pending yb \<le> pending ya"
    by (auto dest: sendall_pending [OF sym] recv_less [OF sym] dispatch_le [OF sym])
  then show "(yb, s) \<in> measure pending" by simp
qed

declare recv_all.simps [simp del]

subsection \<open>The download operation\<close>

text \<open>\<open>b" ".join(paths)\<close>.\<close>

fun join_sp :: "bytes list \<Rightarrow> bytes" where
  "join_sp [] = []"
| "join_sp [p] = p"
| "join_sp (p # ps) = p @ '' '' @ join_sp ps"

definition getfo_command :: "client \<Rightarrow> bool \<Rightarrow> bool \<Rightarrow> pypath list \<Rightarrow> bytes" where
  "getfo_command s recursive preserve remote_path =
     scp_command s @ (if recursive then '' -r'' else [])
       @ (if preserve then '' -p'' else [])
       @ '' -f '' @ join_sp (map (\<lambda>r. sanitize s (asbytes r)) remote_path)"

definition getfo :: "pypath list \<Rightarrow> bool \<Rightarrow> bool \<Rightarrow> client \<Rightarrow> received list result" where
  "getfo remote_path recursive preserve s =
     (case open_chan (s\<lparr>files := [], depth := 0\<rparr>) of
        (Inl e, s1) \<Rightarrow> (Inl e, s1)
      | (Inr _, s1) \<Rightarrow>
          (case exec_command (getfo_command s1 recursive preserve remote_path)
                  (s1\<lparr>pushed := 0\<rparr>) of
             (Inl e, s2) \<Rightarrow> (Inl e, s2)
           | (Inr _, s2) \<Rightarrow>
               (case recv_all s2 of
                  (Inl e, s3) \<Rightarrow> (Inl e, s3)
                | (Inr _, s3) \<Rightarrow> (Inr (files s3), close s3))))"

section \<open>What a transfer leaves unchanged\<close>

text \<open>
  \<open>frame\<close> is everything of the client but the data of its channels and the log of
  progress calls; reading, writing, closing a channel and reporting progress keep it.
  \<open>wire\<close> is the part of it that no function called during a transfer changes: the
  configuration, the current channel and the commands executed so far.
\<close>

definition wire where
  "wire s = (transport s, next_id s, channel s, buff_size s, preserve_times s, progress s,
             sanitize s, scp_command s, (\<lambda>i. commands (store s i)))"

definition frame where
  "frame s = (wire s, recv_dir s, depth s, utime s, dirtimes s, files s, pushed s)"

lemma frame_wire: "frame s' = frame s \<Longrightarrow> wire s' = wire s"
  by (simp add: frame_def)

lemma recv_frame: "recv n s = (r, s') \<Longrightarrow> frame s' = frame s"
  by (auto simp: recv_def frame_def wire_def chan_recv_def fun_eq_iff
           split: option.splits prod.splits list.splits event.splits if_splits)

lemma sendall_frame: "sendall d s = (r, s') \<Longrightarrow> frame s' = frame s"
  by (auto simp: sendall_def frame_def wire_def fun_eq_iff split: option.splits)

lemma chan_close_frame: "chan_close s = (r, s') \<Longrightarrow> frame s' = frame s"
  by (auto simp: chan_close_def frame_def wire_def fun_eq_iff split: option.splits)

lemma report_frame [simp]: "frame (report name t p s) = frame s"
  by (simp add: report_def frame_def wire_def)

lemma recv_confirm_frame: "recv_confirm s = (r, s') \<Longrightarrow> frame s' = frame s"
proof -
  assume a: "recv_confirm s = (r, s')"
  obtain q s1 where b: "recv 1 s = (q, s1)" by (cases "recv 1 s")
  then have "frame s1 = frame s" by (rule recv_frame)
  moreover from a b have "frame s' = frame s1"
    by (auto simp: recv_confirm_def frame_def wire_def fun_eq_iff
             split: sum.splits if_splits option.splits)
  ultimately show ?thesis by simp
qed

lemma send_time_frame: "send_time m a s = (r, s') \<Longrightarrow> frame s' = frame s"
  by (auto simp: send_time_def split: prod.splits sum.splits
           dest!: sendall_frame recv_confirm_frame)

lemma send_body_frame:
  assumes "send_body bn sz fl fp s = Some q"
  shows "frame (snd q) = frame s"
proof (rule send_body.raw_induct
    [where P = "\<lambda>bn sz fl fp s q. frame (snd q) = frame s", OF _ assms])
  fix f bn sz fl fp s q
  assume IH: "\<And>bn sz fl fp s q. f bn sz fl fp s = Some q \<Longrightarrow> frame (snd q) = frame s"
    and eq: "(if fp < sz
      then (let data = take (buff_size s) (drop (pos fl) (content fl));
                fl1 = fl\<lparr>pos := pos fl + length data\<rparr>
            in case sendall data s of
                 (Inl e, s1) \<Rightarrow> Some (Inl e, s1)
               | (Inr _, s1) \<Rightarrow>
                   f bn sz fl1 (int (pos fl1)) (report bn sz (int (pos fl1)) s1))
      else Some (Inr (), s)) = Some q"
  show "frame (snd q) = frame s"
  proof (cases "fp < sz")
    case False
    with eq show ?thesis by auto
  next
    case True
    define data where "data = take (buff_size s) (drop (pos fl) (content fl))"
    obtain r s1 where sa: "sendall data s = (r, s1)" by (cases "sendall data s")
    then have f1: "frame s1 = frame s" by (rule sendall_frame)
    show ?thesis
    proof (cases r)
      case (Inl e)
      with eq True sa f1 show ?thesis by (auto simp: Let_def data_def [symmetric])
    next
      case (Inr u)
      with eq True sa have "f bn sz (fl\<lparr>pos := pos fl + length data\<rparr>) (int (pos fl + length data))
              (report bn sz (int (pos fl + length data)) s1) = Some q"
        by (simp add: Let_def data_def [symmetric])
      from IH [OF this] f1 show ?thesis by simp
    qed
  qed
qed


lemma sendall_frame_snd [simp]: "frame (snd (sendall d s)) = frame s"
  by (cases "sendall d s") (auto dest: sendall_frame)

lemma recv_frame_snd [simp]: "frame (snd (recv n s)) = frame s"
  by (cases "recv n s") (auto dest: recv_frame)

lemma recv_confirm_frame_snd [simp]: "frame (snd (recv_confirm s)) = frame s"
  by (cases "recv_confirm s") (auto dest: recv_confirm_frame)

lemma send_file_frame:
  assumes "send_file fl name mode sz s = Some q"
  shows "frame (snd q) = frame s"
  using assms
  by (auto simp: send_file_def Let_def
           split: pypath.splits option.splits prod.splits sum.splits if_splits
           dest!: sendall_frame recv_confirm_frame send_body_frame)

lemma send_files_frame:
  "send_files fs names s = Some q \<Longrightarrow> frame (snd q) = frame s"
proof (induction names arbitrary: s)
  case Nil
  then show ?case by auto
next
  case (Cons name rest)
  then show ?case
    by (auto split: option.splits prod.splits sum.splits if_splits
             dest!: send_time_frame send_file_frame)
qed

lemma send_popd_wire: "send_popd s = (r, s') \<Longrightarrow> wire s' = wire s"
  by (auto simp: send_popd_def split: prod.splits sum.splits
           dest!: sendall_frame recv_confirm_frame frame_wire) (simp add: wire_def)

lemma send_pushd_wire: "send_pushd fs d s = (r, s') \<Longrightarrow> wire s' = wire s"
  by (auto simp: send_pushd_def Let_def split: option.splits prod.splits sum.splits if_splits
           dest!: sendall_frame recv_confirm_frame send_time_frame frame_wire)
     (simp_all add: wire_def)


lemma chdir_loop_wire: "chdir_loop c m s = (r, s') \<Longrightarrow> wire s' = wire s"
proof (induction c m s rule: chdir_loop.induct)
  case (1 c m s)
  show ?case
  proof (cases "c \<noteq> m")
    case False
    with "1.prems" show ?thesis by (simp add: chdir_loop.simps [of c m s])
  next
    case True
    obtain q s1 where p: "send_popd s = (q, s1)" by (cases "send_popd s")
    then have w: "wire s1 = wire s" by (rule send_popd_wire)
    show ?thesis
    proof (cases q)
      case (Inl e)
      with True p w "1.prems" show ?thesis by (simp add: chdir_loop.simps [of c m s])
    next
      case (Inr u)
      with True p "1.prems" have "chdir_loop (dirname c) m s1 = (r, s')"
        by (simp add: chdir_loop.simps [of c m s])
      from "1.IH" [OF True p [symmetric] Inr this] w show ?thesis by simp
    qed
  qed
qed

lemma chdir_wire: "chdir fs a b s = (r, s') \<Longrightarrow> wire s' = wire s"
  by (auto simp: chdir_def Let_def split: prod.splits sum.splits
           dest!: chdir_loop_wire send_pushd_wire)

lemma walk_loop_wire: "walk_loop fs last_dir es s = Some q \<Longrightarrow> wire (snd q) = wire s"
proof (induction es arbitrary: last_dir s)
  case Nil
  then show ?case by auto
next
  case (Cons e es)
  obtain root dirs fls where e: "e = (root, dirs, fls)" by (cases e)
  from Cons.prems show ?case unfolding e
    by (auto split: option.splits prod.splits sum.splits if_splits
             dest!: chdir_wire send_files_frame frame_wire Cons.IH)
qed

lemma pop_all_wire: "pop_all s = (r, s') \<Longrightarrow> wire s' = wire s"
proof (induction s rule: pop_all.induct)
  case (1 s)
  show ?case
  proof (cases "pushed s > 0")
    case False
    with "1.prems" show ?thesis by (simp add: pop_all.simps [of s])
  next
    case True
    obtain q s1 where p: "send_popd s = (q, s1)" by (cases "send_popd s")
    then have w: "wire s1 = wire s" by (rule send_popd_wire)
    show ?thesis
    proof (cases q)
      case (Inl e)
      with True p w "1.prems" show ?thesis by (simp add: pop_all.simps [of s])
    next
      case (Inr u)
      with True p "1.prems" have "pop_all s1 = (r, s')"
        by (simp add: pop_all.simps [of s])
      from "1.IH" [OF True p [symmetric] Inr this] w show ?thesis by simp
    qed
  qed
qed

lemma pop_all_wire_snd [simp]: "wire (snd (pop_all s)) = wire s"
  by (cases "pop_all s") (auto dest: pop_all_wire)

lemma send_recursive_wire: "send_recursive fs bases s = Some q \<Longrightarrow> wire (snd q) = wire s"
proof (induction bases arbitrary: s)
  case Nil
  then show ?case by auto
next
  case (Cons b bs)
  from Cons.prems show ?case
    by (auto simp del: send_files.simps split: option.splits prod.splits sum.splits
             dest!: send_files_frame frame_wire walk_loop_wire pop_all_wire Cons.IH)
qed


text \<open>Receiving a file or a timestamp also keeps the directory bookkeeping.\<close>

definition dirs where
  "dirs s = (wire s, recv_dir s, depth s, dirtimes s, pushed s)"

lemma frame_dirs: "frame s' = frame s \<Longrightarrow> dirs s' = dirs s"
  by (simp add: frame_def dirs_def)

lemma dirs_wire: "dirs s' = dirs s \<Longrightarrow> wire s' = wire s"
  by (simp add: dirs_def)

lemma recv_body_frame: "recv_body name sz buff acc s = (r, s') \<Longrightarrow> frame s' = frame s"
proof (induction name sz buff acc s rule: recv_body.induct)
  case (1 name sz buff acc s)
  show ?case
  proof (cases "int (length acc) < sz")
    case False
    with "1.prems" show ?thesis by (simp add: recv_body.simps [of name sz buff acc s])
  next
    case True
    define buff1 where "buff1 = (if sz - int (length acc) \<le> int buff
                                 then nat (sz - int (length acc)) else buff)"
    obtain q s1 where rc: "recv buff1 s = (q, s1)" by (cases "recv buff1 s")
    then have le: "frame s1 = frame s" by (rule recv_frame)
    show ?thesis
    proof (cases q)
      case (Inl e)
      with True rc "1.prems" le show ?thesis
        by (simp add: recv_body.simps [of name sz buff acc s] buff1_def [symmetric])
    next
      case (Inr data)
      show ?thesis
      proof (cases "data = []")
        case True
        with \<open>int (length acc) < sz\<close> Inr rc "1.prems" le show ?thesis
          by (simp add: recv_body.simps [of name sz buff acc s] buff1_def [symmetric])
      next
        case False
        with True Inr rc "1.prems"
        have "recv_body name sz buff1 (acc @ data)
                (report name sz (int (length (acc @ data))) s1) = (r, s')"
          by (simp add: recv_body.simps [of name sz buff acc s] buff1_def [symmetric])
        from "1.IH" [OF True buff1_def rc [symmetric] Inr False this] le
        show ?thesis by simp
      qed
    qed
  qed
qed

lemma on_timeout_frame: "on_timeout s = (r, s') \<Longrightarrow> frame s' = frame s"
  by (auto simp: on_timeout_def split: prod.splits sum.splits dest!: chan_close_frame)

lemma recv_data_frame: "recv_data name sz s = (r, s') \<Longrightarrow> frame s' = frame s"
  by (auto simp: recv_data_def split: prod.splits sum.splits if_splits
           dest!: recv_body_frame recv_frame)

lemma set_time_dirs: "set_time cmd s = (r, s') \<Longrightarrow> dirs s' = dirs s"
  by (cases "parse_time cmd"; cases "sendall [SOH] s"; cases "fst (sendall [SOH] s)")
     (auto simp: set_time_def dirs_def wire_def dest!: sendall_frame frame_dirs)

lemma recv_file_dirs:
  assumes "recv_file cmd s = (r, s')"
  shows "dirs s' = dirs s"
proof (cases "parse_file cmd")
  case None
  with assms show ?thesis
    by (auto simp: recv_file_def split: prod.splits sum.splits
             dest!: sendall_frame chan_close_frame frame_dirs)
next
  case (Some p)
  obtain mode sz name where p: "p = (mode, sz, name)" by (cases p)
  define s0 where "s0 = (if sz = 0 then report name 1 1 s else report name sz 0 s)"
  have d0: "dirs s0 = dirs s" by (simp add: s0_def report_def dirs_def wire_def)
  obtain q1 s1 where a: "sendall [NUL] s0 = (q1, s1)" by (cases "sendall [NUL] s0")
  then have d1: "dirs s1 = dirs s0" by (auto dest!: sendall_frame frame_dirs)
  obtain q2 s2 where b: "recv_data name sz s1 = (q2, s2)" by (cases "recv_data name sz s1")
  then have d2: "dirs s2 = dirs s1" by (auto dest!: recv_data_frame frame_dirs)
  have t2: "dirs (snd (on_timeout s2 :: unit result)) = dirs s2"
    by (cases "on_timeout s2 :: unit result") (auto dest!: on_timeout_frame frame_dirs)
  have e: "\<And>f. dirs (s2\<lparr>files := f, utime := None\<rparr>) = dirs s2"
    by (simp add: dirs_def wire_def)
  have "dirs s' = dirs s1 \<or> dirs s' = dirs s2"
  proof (cases q1)
    case (Inl e1)
    with assms Some p a show ?thesis by (simp add: recv_file_def s0_def [symmetric])
  next
    case (Inr u)
    show ?thesis
    proof (cases q2)
      case (Inl e2)
      with assms Some p a b Inr t2 show ?thesis
        by (cases "e2 = SocketTimeout") (auto simp: recv_file_def s0_def [symmetric])
    next
      case (Inr data)
      with assms Some p a b \<open>q1 = Inr u\<close> e show ?thesis
        by (auto simp: recv_file_def s0_def [symmetric])
    qed
  qed
  with d0 d1 d2 show ?thesis by auto
qed

lemma recv_pushd_wire: "recv_pushd cmd s = (r, s') \<Longrightarrow> wire s' = wire s \<and> pushed s' = pushed s"
  by (cases "parse_dir cmd"; cases "sendall [SOH] s"; cases "fst (sendall [SOH] s)")
     (auto simp: recv_pushd_def Let_def frame_def wire_def dest!: sendall_frame)

lemma recv_popd_wire: "wire (recv_popd s) = wire s \<and> pushed (recv_popd s) = pushed s"
  by (simp add: recv_popd_def wire_def)


lemma dispatch_cases:
  assumes "dispatch msg s = (r, s')"
  obtains (C) "recv_file (drop 1 msg) s = (r, s')"
    | (T) "set_time (drop 1 msg) s = (r, s')"
    | (D) "recv_pushd (drop 1 msg) s = (r, s')"
    | (E) "r = Inr ()" "s' = recv_popd s"
    | (other) "r = Inl (SCPException (asunicode (drop 1 msg)))" "s' = s"
  using assms unfolding dispatch_def Let_def
  by (cases "take 1 msg = ''C''"; cases "take 1 msg = ''T''"; cases "take 1 msg = ''D''";
      cases "take 1 msg = ''E''") auto

lemma dispatch_wire:
  assumes "dispatch msg s = (r, s')"
  shows "wire s' = wire s \<and> pushed s' = pushed s"
  using assms
proof (cases rule: dispatch_cases)
  case C
  then have "dirs s' = dirs s" by (rule recv_file_dirs)
  then show ?thesis by (simp add: dirs_def)
next
  case T
  then have "dirs s' = dirs s" by (rule set_time_dirs)
  then show ?thesis by (simp add: dirs_def)
next
  case D
  then show ?thesis by (rule recv_pushd_wire)
next
  case E
  then show ?thesis by (simp add: recv_popd_wire)
next
  case other
  then show ?thesis by simp
qed

text \<open>An invariant of the receive loop holds when the loop ends, however it ends.\<close>

lemma recv_all_invariant:
  assumes run: "recv_all s = (r, s')" and init: "I s"
    and snd: "\<And>d s q s'. I s \<Longrightarrow> sendall d s = (q, s') \<Longrightarrow> I s'"
    and rcv: "\<And>n s q s'. I s \<Longrightarrow> recv n s = (q, s') \<Longrightarrow> I s'"
    and dsp: "\<And>m s q s'. I s \<Longrightarrow> dispatch m s = (q, s') \<Longrightarrow> I s'"
  shows "I s'"
  using run init
proof (induction s rule: recv_all.induct)
  case (1 s)
  show ?case
  proof (cases "channel s")
    case None
    with "1.prems" show ?thesis by (simp add: recv_all.simps [of s])
  next
    case (Some i)
    show ?thesis
    proof (cases "closed (store s i)")
      case True
      with Some "1.prems" show ?thesis by (simp add: recv_all.simps [of s])
    next
      case False
      obtain q1 s1 where a: "sendall [NUL] s = (q1, s1)" by (cases "sendall [NUL] s")
      with "1.prems" have i1: "I s1" by (auto intro: snd)
      show ?thesis
      proof (cases q1)
        case (Inl e)
        with Some False a i1 "1.prems" show ?thesis by (simp add: recv_all.simps [of s])
      next
        case q1: (Inr u1)
        obtain q2 s2 where b: "recv 1024 s1 = (q2, s2)" by (cases "recv 1024 s1")
        with i1 have i2: "I s2" by (auto intro: rcv)
        show ?thesis
        proof (cases q2)
          case (Inl e)
          with Some False a q1 b i2 "1.prems" show ?thesis
            by (simp add: recv_all.simps [of s])
        next
          case q2: (Inr msg)
          show ?thesis
          proof (cases "msg = [] \<or> last msg \<noteq> NL")
            case True
            with Some False a q1 b q2 i2 "1.prems" show ?thesis
              by (auto simp: recv_all.simps [of s] split: if_splits)
          next
            case ok: False
            obtain q3 s3 where c: "dispatch (butlast msg) s2 = (q3, s3)"
              by (cases "dispatch (butlast msg) s2")
            with i2 have i3: "I s3" by (auto intro: dsp)
            show ?thesis
            proof (cases q3)
              case (Inl e)
              with Some False a q1 b q2 ok c i3 "1.prems" show ?thesis
                by (simp add: recv_all.simps [of s])
            next
              case q3: (Inr u3)
              with Some False a q1 b q2 ok c "1.prems" have "recv_all s3 = (r, s')"
                by (simp add: recv_all.simps [of s])
              moreover from ok have "msg \<noteq> []" and "\<not> last msg \<noteq> NL" by auto
              ultimately show ?thesis
                using "1.IH" [OF Some False a [symmetric] q1 b [symmetric] q2 _ _ c [symmetric] q3] i3
                by blast
            qed
          qed
        qed
      qed
    qed
  qed
qed

lemma recv_all_wire:
  assumes "recv_all s = (r, s')"
  shows "wire s' = wire s \<and> pushed s' = pushed s"
  by (rule recv_all_invariant [OF assms, where I = "\<lambda>t. wire t = wire s \<and> pushed t = pushed s"])
     (auto dest!: sendall_frame recv_frame dispatch_wire simp: frame_def)

section \<open>Facts about paths\<close>

lemma rstrip_char_snoc:
  "rstrip_char c (b @ [x]) = (if x = c then rstrip_char c b else b @ [x])"
  by (simp add: rstrip_char_def)

lemma rstrip_char_id: "b = [] \<or> last b \<noteq> c \<Longrightarrow> rstrip_char c b = b"
  by (cases b rule: rev_cases) (auto simp: rstrip_char_def)

lemma takeWhile_not_mem: "c \<notin> set xs \<Longrightarrow> takeWhile (\<lambda>x. x \<noteq> c) xs = xs"
  by (induction xs) auto

lemma basename_plain: "bytes_sep \<notin> set x \<Longrightarrow> basename x = x"
  by (simp add: basename_def takeWhile_not_mem)

lemma basename_after_sep:
  assumes "bytes_sep \<notin> set x"
  shows "basename (h @ bytes_sep # x) = x"
proof -
  have "takeWhile (\<lambda>c. c \<noteq> bytes_sep) (rev x @ bytes_sep # rev h)
          = takeWhile (\<lambda>c. c \<noteq> bytes_sep) (rev x)"
    by (rule takeWhile_tail) simp
  also have "\<dots> = rev x"
    using assms by (simp add: takeWhile_not_mem)
  finally show ?thesis by (simp add: basename_def)
qed

lemma dirname_plain: "bytes_sep \<notin> set x \<Longrightarrow> dirname x = []"
  by (simp add: dirname_def basename_plain)

lemma dirname_after_sep:
  assumes "bytes_sep \<notin> set x"
  shows "dirname (h @ bytes_sep # x) =
           (if h = replicate (length h) bytes_sep then h @ [bytes_sep]
            else rstrip_char bytes_sep h)"
proof -
  have "h @ [bytes_sep] = replicate (Suc (length h)) bytes_sep \<longleftrightarrow> h = replicate (length h) bytes_sep"
    by (simp add: replicate_append_same [symmetric])
  then show ?thesis
    using assms by (simp add: dirname_def basename_after_sep rstrip_char_snoc)
qed

lemma dirname_path_join:
  assumes "name \<noteq> []" and "bytes_sep \<notin> set name"
    and "d = [] \<or> last d \<noteq> bytes_sep \<or> d = replicate (length d) bytes_sep"
  shows "dirname (path_join d name) = d"
proof -
  from assms have hd: "take 1 name \<noteq> [bytes_sep]" by (cases name) auto
  consider "d = []" | "d \<noteq> []" "last d \<noteq> bytes_sep"
    | "d \<noteq> []" "last d = bytes_sep" "d = replicate (length d) bytes_sep"
    using assms(3) by blast
  then show ?thesis
  proof cases
    case 1
    with hd assms show ?thesis by (simp add: path_join_def dirname_plain)
  next
    case 2
    then have "d \<noteq> replicate (length d) bytes_sep"
      by (metis last_replicate length_0_conv)
    with 2 hd assms show ?thesis
      by (simp add: path_join_def dirname_after_sep rstrip_char_id)
  next
    case 3
    then obtain h where h: "d = h @ [bytes_sep]" by (cases d rule: rev_cases) auto
    with 3 have r: "h = replicate (length h) bytes_sep"
      by (simp add: replicate_append_same [symmetric])
    from 3 hd have "path_join d name = d @ name" by (simp add: path_join_def)
    also have "\<dots> = h @ bytes_sep # name" by (simp add: h)
    finally have "dirname (path_join d name) = dirname (h @ bytes_sep # name)" by simp
    also have "\<dots> = h @ [bytes_sep]"
      using dirname_after_sep [OF assms(2), of h] r by metis
    finally show ?thesis by (simp add: h)
  qed
qed

section \<open>Observing a run\<close>

text \<open>
  The outcome and the final state of an operation that returned, the commands executed on
  the first channel of the store, and a filesystem with nothing in it.
\<close>

definition outcome :: "'a result option \<Rightarrow> (exn + 'a) option" where
  "outcome q = map_option fst q"

definition final :: "'a result option \<Rightarrow> client" where
  "final q = snd (the q)"

definition issued :: "client \<Rightarrow> bytes list" where
  "issued s = commands (store s 0)"

definition no_files :: fsys where
  "no_files = \<lparr>fs_stat = (\<lambda>_. None), fs_open = (\<lambda>_. None), fs_tree = (\<lambda>_. None)\<rparr>"

lemma returned: "outcome q = Some r \<Longrightarrow> q = Some (r, final q)"
  by (cases q) (auto simp: outcome_def final_def)

text \<open>What has been written to the current channel, one entry for each write.\<close>

definition cur_sent :: "client \<Rightarrow> bytes list" where
  "cur_sent s = (case channel s of None \<Rightarrow> [] | Some i \<Rightarrow> sent (store s i))"

lemma sendall_sent:
  "sendall d s = (Inr u, s') \<Longrightarrow> cur_sent s' = cur_sent s @ [d]"
  by (auto simp: sendall_def cur_sent_def split: option.splits)

lemma recv_sent: "recv n s = (r, s') \<Longrightarrow> cur_sent s' = cur_sent s"
  by (auto simp: recv_def cur_sent_def chan_recv_def
           split: option.splits prod.splits list.splits event.splits if_splits)

lemma recv_confirm_sent: "recv_confirm s = (r, s') \<Longrightarrow> cur_sent s' = cur_sent s"
proof -
  assume a: "recv_confirm s = (r, s')"
  obtain q s1 where b: "recv 1 s = (q, s1)" by (cases "recv 1 s")
  then have "cur_sent s1 = cur_sent s" by (rule recv_sent)
  moreover from a b have "cur_sent s' = cur_sent s1"
    by (auto simp: recv_confirm_def cur_sent_def split: sum.splits if_splits option.splits)
  ultimately show ?thesis by simp
qed

section \<open>The acknowledgement of an error\<close>

text \<open>
  Claim C1. When the peer answers a record with the byte 0x01 and a message, the operation
  should fail with that message. \<open>_recv_confirm\<close> reads a single byte and then takes the
  message from what follows the flag in the bytes it has read, which is nothing: a peer
  that accepts the command of \<open>putfo\<close> and answers the file header with
  \<open>\x01bad mode\n\<close> makes \<open>putfo\<close> fail with an exception whose message is empty.
\<close>

theorem error_reply_message_is_lost:
  "outcome (putfo \<lparr>content = ''hello'', pos = 0\<rparr> (PStr ''f'') ''0644'' None
      (init_client [new_channel [Chunk [NUL], Chunk (SOH # ''bad mode'' @ [NL])]] 4 False))
   = Some (Inl (SCPException []))"
  by code_simp

section \<open>The three operations: the command and the channel\<close>

lemma open_chan_ok:
  assumes "open_chan s = (Inr u, s')"
  obtains i where "channel s' = Some i"
    "scp_command s' = scp_command s" "sanitize s' = sanitize s"
  using assms
  by (auto simp: open_chan_def split: if_splits list.splits)

lemma exec_command_ok:
  assumes "channel s = Some i"
  shows "\<exists>s'. exec_command c s = (Inr (), s')
           \<and> channel s' = Some i \<and> commands (store s' i) = commands (store s i) @ [c]"
  using assms by (simp add: exec_command_def)

lemma wire_commands:
  "wire s' = wire s \<Longrightarrow> commands (store s' i) = commands (store s i) \<and> channel s' = channel s"
  by (auto simp: wire_def dest: fun_cong)

lemma close_commands [simp]: "commands (store (close s) i) = commands (store s i)"
  by (simp add: close_def split: option.splits)

lemma close_closed: "channel s = Some i \<Longrightarrow> closed (store (close s) i) \<and> channel (close s) = None"
  by (simp add: close_def)

lemma put_run:
  assumes op: "open_chan (s\<lparr>preserve_times := p\<rparr>) = (Inr (), s1)" and ch: "channel s1 = Some i"
    and run: "put fs fls path rc p s = Some (r, s')"
  shows "commands (store s' i) = commands (store s1 i) @ [put_command s rc path]"
    and "r = Inr () \<Longrightarrow> closed (store s' i) \<and> channel s' = None"
proof -
  from op have "scp_command s1 = scp_command s" "sanitize s1 = sanitize s"
    by (auto elim: open_chan_ok)
  then have cmd: "put_command s1 rc path = put_command s rc path"
    by (simp add: put_command_def)
  from ch have "channel (s1\<lparr>pushed := 0\<rparr>) = Some i" by simp
  from exec_command_ok [OF this, of "put_command s rc path"] obtain s2 where
    ex: "exec_command (put_command s rc path) (s1\<lparr>pushed := 0\<rparr>) = (Inr (), s2)"
    and c2: "channel s2 = Some i"
    and k2: "commands (store s2 i) = commands (store s1 i) @ [put_command s rc path]"
    by auto
  obtain q3 s3 where rc3: "recv_confirm s2 = (q3, s3)" by (cases "recv_confirm s2")
  then have "wire s3 = wire s2" by (auto dest: recv_confirm_frame frame_wire)
  then have w3: "commands (store s3 i) = commands (store s2 i)" "channel s3 = channel s2"
    by (auto dest: wire_commands)
  have "commands (store s' i) = commands (store s2 i)
        \<and> (r = Inr () \<longrightarrow> closed (store s' i) \<and> channel s' = None)"
  proof (cases q3)
    case (Inl e)
    with run op cmd ex rc3 have "r = Inl e" "s' = s3" by (simp_all add: put_def)
    with w3 show ?thesis by simp
  next
    case (Inr u3)
    define body where "body = (if rc then send_recursive fs fls s3 else send_files fs fls s3)"
    from run op cmd ex rc3 Inr obtain q4 s4 where b: "body = Some (q4, s4)"
      by (cases body) (auto simp: put_def body_def [symmetric])
    then have "wire s4 = wire s3"
      by (auto simp: body_def split: if_splits
               dest!: send_recursive_wire send_files_frame frame_wire)
    then have w4: "commands (store s4 i) = commands (store s3 i)" "channel s4 = channel s3"
      by (auto dest: wire_commands)
    show ?thesis
    proof (cases q4)
      case (Inl e)
      with run op cmd ex rc3 \<open>q3 = Inr u3\<close> b have "r = Inl e" "s' = s4"
        by (simp_all add: put_def body_def [symmetric])
      with w3 w4 show ?thesis by simp
    next
      case (Inr u4)
      with run op cmd ex rc3 \<open>q3 = Inr u3\<close> b have "s' = close s4"
        by (simp add: put_def body_def [symmetric])
      moreover from w3 w4 c2 have "channel s4 = Some i" by simp
      ultimately show ?thesis using w3 w4 by (simp add: close_closed)
    qed
  qed
  with k2 show "commands (store s' i) = commands (store s1 i) @ [put_command s rc path]"
    and "r = Inr () \<Longrightarrow> closed (store s' i) \<and> channel s' = None" by simp_all
qed

lemma putfo_run:
  assumes op: "open_chan s = (Inr (), s1)" and ch: "channel s1 = Some i"
    and run: "putfo fl path mode sz s = Some (r, s')"
  shows "commands (store s' i) = commands (store s1 i) @ [putfo_command s path]"
    and "r = Inr () \<Longrightarrow> closed (store s' i) \<and> channel s' = None"
proof -
  define sz1 where "sz1 = (case sz of None \<Rightarrow> int (length (content fl)) - int (pos fl) | Some n \<Rightarrow> n)"
  from op have "scp_command s1 = scp_command s" "sanitize s1 = sanitize s"
    by (auto elim: open_chan_ok)
  then have cmd: "putfo_command s1 path = putfo_command s path"
    by (simp add: putfo_command_def)
  from exec_command_ok [OF ch, of "putfo_command s path"] obtain s2 where
    ex: "exec_command (putfo_command s path) s1 = (Inr (), s2)"
    and c2: "channel s2 = Some i"
    and k2: "commands (store s2 i) = commands (store s1 i) @ [putfo_command s path]"
    by auto
  obtain q3 s3 where rc3: "recv_confirm s2 = (q3, s3)" by (cases "recv_confirm s2")
  then have "wire s3 = wire s2" by (auto dest: recv_confirm_frame frame_wire)
  then have w3: "commands (store s3 i) = commands (store s2 i)" "channel s3 = channel s2"
    by (auto dest: wire_commands)
  have "commands (store s' i) = commands (store s2 i)
        \<and> (r = Inr () \<longrightarrow> closed (store s' i) \<and> channel s' = None)"
  proof (cases q3)
    case (Inl e)
    with run op cmd ex rc3 have "r = Inl e" "s' = s3" by (simp_all add: putfo_def Let_def)
    with w3 show ?thesis by simp
  next
    case (Inr u3)
    from run op cmd ex rc3 Inr obtain q4 s4 where b: "send_file fl path mode sz1 s3 = Some (q4, s4)"
      by (cases "send_file fl path mode sz1 s3") (auto simp: putfo_def Let_def sz1_def [symmetric])
    then have "wire s4 = wire s3"
      by (auto dest!: send_file_frame frame_wire)
    then have w4: "commands (store s4 i) = commands (store s3 i)" "channel s4 = channel s3"
      by (auto dest: wire_commands)
    show ?thesis
    proof (cases q4)
      case (Inl e)
      with run op cmd ex rc3 \<open>q3 = Inr u3\<close> b have "r = Inl e" "s' = s4"
        by (simp_all add: putfo_def Let_def sz1_def [symmetric])
      with w3 w4 show ?thesis by simp
    next
      case (Inr u4)
      with run op cmd ex rc3 \<open>q3 = Inr u3\<close> b have "s' = close s4"
        by (simp add: putfo_def Let_def sz1_def [symmetric])
      moreover from w3 w4 c2 have "channel s4 = Some i" by simp
      ultimately show ?thesis using w3 w4 by (simp add: close_closed)
    qed
  qed
  with k2 show "commands (store s' i) = commands (store s1 i) @ [putfo_command s path]"
    and "r = Inr () \<Longrightarrow> closed (store s' i) \<and> channel s' = None" by simp_all
qed

lemma getfo_run:
  assumes op: "open_chan (s\<lparr>files := [], depth := 0\<rparr>) = (Inr (), s1)" and ch: "channel s1 = Some i"
    and run: "getfo paths rc p s = (r, s')"
  shows "commands (store s' i) = commands (store s1 i) @ [getfo_command s rc p paths]"
    and "\<forall>fs. r = Inr fs \<longrightarrow> closed (store s' i) \<and> channel s' = None"
proof -
  from op have "scp_command s1 = scp_command s" "sanitize s1 = sanitize s"
    by (auto elim: open_chan_ok)
  then have cmd: "getfo_command s1 rc p paths = getfo_command s rc p paths"
    by (simp add: getfo_command_def)
  from ch have "channel (s1\<lparr>pushed := 0\<rparr>) = Some i" by simp
  from exec_command_ok [OF this, of "getfo_command s rc p paths"] obtain s2 where
    ex: "exec_command (getfo_command s rc p paths) (s1\<lparr>pushed := 0\<rparr>) = (Inr (), s2)"
    and c2: "channel s2 = Some i"
    and k2: "commands (store s2 i) = commands (store s1 i) @ [getfo_command s rc p paths]"
    by auto
  obtain q3 s3 where rc3: "recv_all s2 = (q3, s3)" by (cases "recv_all s2")
  then have "wire s3 = wire s2" by (auto dest: recv_all_wire)
  then have w3: "commands (store s3 i) = commands (store s2 i)" "channel s3 = channel s2"
    by (auto dest: wire_commands)
  have "commands (store s' i) = commands (store s2 i)
        \<and> (\<forall>fs. r = Inr fs \<longrightarrow> closed (store s' i) \<and> channel s' = None)"
  proof (cases q3)
    case (Inl e)
    with run op cmd ex rc3 have "r = Inl e" "s' = s3" by (simp_all add: getfo_def)
    with w3 show ?thesis by simp
  next
    case (Inr u3)
    with run op cmd ex rc3 have "s' = close s3" by (simp add: getfo_def)
    moreover from w3 c2 have "channel s3 = Some i" by simp
    ultimately show ?thesis using w3 by (simp add: close_closed)
  qed
  with k2 show "commands (store s' i) = commands (store s1 i) @ [getfo_command s rc p paths]"
    and "\<forall>fs. r = Inr fs \<longrightarrow> closed (store s' i) \<and> channel s' = None" by simp_all
qed


subsection \<open>The remote command\<close>

text \<open>
  The command of an upload in the words of the specification: \<open>scp\<close>, then \<open>-r\<close> when
  recursion is requested, then \<open>-p\<close> when the times are to be preserved, then \<open>-t\<close> and
  the sanitized remote path.
\<close>

definition claimed_put_command :: "client \<Rightarrow> bool \<Rightarrow> bool \<Rightarrow> pypath \<Rightarrow> bytes" where
  "claimed_put_command s recursive preserve remote_path =
     scp_command s @ (if recursive then '' -r'' else []) @ (if preserve then '' -p'' else [])
       @ '' -t '' @ sanitize s (asbytes remote_path)"

text \<open>
  Claim C3, as stated, fails for \<open>put\<close>: asked to preserve the times, \<open>put\<close> executes
  \<open>scp -t .\<close>, not \<open>scp -p -t .\<close>.
\<close>

theorem put_command_has_no_preserve_flag:
  "issued (final (put no_files [] (PBytes ''.'') False True
             (init_client [new_channel [Chunk [NUL]]] 4 False))) = [''scp -t .'']
   \<and> claimed_put_command (init_client [new_channel [Chunk [NUL]]] 4 False) False True
         (PBytes ''.'') = ''scp -p -t .''"
  by code_simp

text \<open>
  Claim C3, amended. On the channel it has opened, \<open>put\<close> executes the client's command
  (\<open>scp\<close> unless it was changed), then \<open>-r\<close> exactly when recursion is requested, then
  \<open>-t\<close> and the sanitized remote path, and no \<open>-p\<close> whether or not the times are to be
  preserved; \<open>getfo\<close> executes the command, then \<open>-r\<close> and \<open>-p\<close> each exactly when
  requested, then \<open>-f\<close> and the sanitized remote paths separated by spaces; \<open>putfo\<close>
  executes the command, then \<open>-v -t\<close> and the sanitized remote path. This is so however
  the operation ends.
\<close>

theorem remote_command_issued:
  "(open_chan (s\<lparr>preserve_times := p\<rparr>) = (Inr (), s1) \<longrightarrow> channel s1 = Some i \<longrightarrow>
      put fs fls path rc p s = Some (r, s') \<longrightarrow>
      commands (store s' i) = commands (store s1 i)
        @ [scp_command s @ '' '' @ (if rc then ''-r -t '' else ''-t '')
             @ sanitize s (asbytes path)])
   \<and> (open_chan (s\<lparr>files := [], depth := 0\<rparr>) = (Inr (), s2) \<longrightarrow> channel s2 = Some j \<longrightarrow>
      getfo paths rc p s = (rg, sg) \<longrightarrow>
      commands (store sg j) = commands (store s2 j)
        @ [scp_command s @ (if rc then '' -r'' else []) @ (if p then '' -p'' else [])
             @ '' -f '' @ join_sp (map (\<lambda>r. sanitize s (asbytes r)) paths)])
   \<and> (open_chan s = (Inr (), s3) \<longrightarrow> channel s3 = Some k \<longrightarrow>
      putfo fl path mode sz s = Some (rf, sf) \<longrightarrow>
      commands (store sf k) = commands (store s3 k)
        @ [scp_command s @ '' -v -t '' @ sanitize s (asbytes path)])"
  using put_run(1) [where s = s and p = p and ?s1.0 = s1 and i = i and fs = fs and fls = fls
      and path = path and rc = rc and r = r and s' = s']
    getfo_run(1) [where s = s and ?s1.0 = s2 and i = j and paths = paths and rc = rc and p = p
      and r = rg and s' = sg]
    putfo_run(1) [where s = s and ?s1.0 = s3 and i = k and fl = fl and path = path
      and mode = mode and sz = sz and r = rf and s' = sf]
  by (simp add: put_command_def getfo_command_def putfo_command_def)

definition cmd_demo :: client where
  "cmd_demo = init_client [new_channel [Chunk [NUL], Chunk [NUL], Chunk [NUL]]] 4 False"

theorem remote_command_issued_witness:
  "fst (open_chan (cmd_demo\<lparr>preserve_times := True\<rparr>)) = Inr ()
   \<and> channel (snd (open_chan (cmd_demo\<lparr>preserve_times := True\<rparr>))) = Some 0
   \<and> outcome (put no_files [] (PBytes ''dest dir'') True True cmd_demo) = Some (Inr ())
   \<and> issued (final (put no_files [] (PBytes ''dest dir'') True True cmd_demo))
       = [''scp -r -t '' @ sh_quote ''dest dir'']
   \<and> fst (open_chan (cmd_demo\<lparr>files := [], depth := 0\<rparr>)) = Inr ()
   \<and> channel (snd (open_chan (cmd_demo\<lparr>files := [], depth := 0\<rparr>))) = Some 0
   \<and> issued (snd (getfo [PStr ''a'', PStr ''b c''] True True cmd_demo))
       = [''scp -r -p -f a '' @ sh_quote ''b c'']
   \<and> fst (open_chan cmd_demo) = Inr ()
   \<and> channel (snd (open_chan cmd_demo)) = Some 0
   \<and> outcome (putfo \<lparr>content = ''hello'', pos = 0\<rparr> (PStr ''f'') ''0644'' None cmd_demo)
       = Some (Inr ())
   \<and> issued (final (putfo \<lparr>content = ''hello'', pos = 0\<rparr> (PStr ''f'') ''0644'' None cmd_demo))
       = [''scp -v -t f'']"
proof -
  let ?put = "put no_files [] (PBytes ''dest dir'') True True cmd_demo"
  let ?get = "getfo [PStr ''a'', PStr ''b c''] True True cmd_demo"
  let ?putfo = "putfo \<lparr>content = ''hello'', pos = 0\<rparr> (PStr ''f'') ''0644'' None cmd_demo"
  have o1: "fst (open_chan (cmd_demo\<lparr>preserve_times := True\<rparr>)) = Inr ()"
    and c1: "channel (snd (open_chan (cmd_demo\<lparr>preserve_times := True\<rparr>))) = Some 0"
    and k1: "commands (store (snd (open_chan (cmd_demo\<lparr>preserve_times := True\<rparr>))) 0) = []"
    and o2: "fst (open_chan (cmd_demo\<lparr>files := [], depth := 0\<rparr>)) = Inr ()"
    and c2: "channel (snd (open_chan (cmd_demo\<lparr>files := [], depth := 0\<rparr>))) = Some 0"
    and k2: "commands (store (snd (open_chan (cmd_demo\<lparr>files := [], depth := 0\<rparr>))) 0) = []"
    and o3: "fst (open_chan cmd_demo) = Inr ()"
    and c3: "channel (snd (open_chan cmd_demo)) = Some 0"
    and k3: "commands (store (snd (open_chan cmd_demo)) 0) = []"
    and e1: "outcome ?put = Some (Inr ())"
    and e3: "outcome ?putfo = Some (Inr ())"
    and f: "sh_quote ''f'' = ''f''" "sh_quote ''a'' = ''a''"
    by code_simp+
  have q: "sanitize cmd_demo = sh_quote" "scp_command cmd_demo = ''scp''"
    by (simp_all add: cmd_demo_def init_client_def SCP_COMMAND_def)
  from o1 have o1': "open_chan (cmd_demo\<lparr>preserve_times := True\<rparr>)
                      = (Inr (), snd (open_chan (cmd_demo\<lparr>preserve_times := True\<rparr>)))"
    by (simp add: prod_eq_iff)
  from o2 have o2': "open_chan (cmd_demo\<lparr>files := [], depth := 0\<rparr>)
                      = (Inr (), snd (open_chan (cmd_demo\<lparr>files := [], depth := 0\<rparr>)))"
    by (simp add: prod_eq_iff)
  from o3 have o3': "open_chan cmd_demo = (Inr (), snd (open_chan cmd_demo))"
    by (simp add: prod_eq_iff)
  note inst = remote_command_issued
    [where s = cmd_demo and p = True and rc = True and i = 0 and j = 0 and k = 0
       and ?s1.0 = "snd (open_chan (cmd_demo\<lparr>preserve_times := True\<rparr>))"
       and ?s2.0 = "snd (open_chan (cmd_demo\<lparr>files := [], depth := 0\<rparr>))"
       and ?s3.0 = "snd (open_chan cmd_demo)"
       and fs = no_files and fls = "[]" and path = "PBytes ''dest dir''"
       and r = "Inr ()" and s' = "final ?put"
       and paths = "[PStr ''a'', PStr ''b c'']" and rg = "fst ?get" and sg = "snd ?get"]
  from inst [THEN conjunct1] o1' c1 k1 returned [OF e1] q
  have 1: "issued (final ?put) = [''scp -r -t '' @ sh_quote ''dest dir'']"
    by (simp add: issued_def)
  from inst [THEN conjunct2, THEN conjunct1] o2' c2 k2 q f
  have 2: "issued (snd ?get) = [''scp -r -p -f a '' @ sh_quote ''b c'']"
    by (simp add: issued_def)
  from remote_command_issued
    [where s = cmd_demo and k = 0 and ?s3.0 = "snd (open_chan cmd_demo)"
       and fl = "\<lparr>content = ''hello'', pos = 0\<rparr>" and path = "PStr ''f''" and mode = "''0644''"
       and sz = None and rf = "Inr ()" and sf = "final ?putfo",
     THEN conjunct2, THEN conjunct2] o3' c3 k3 returned [OF e3] q f
  have 3: "issued (final ?putfo) = [''scp -v -t f'']"
    by (simp add: issued_def)
  from o1 c1 o2 c2 o3 c3 e1 e3 1 2 3 show ?thesis by simp
qed

subsection \<open>Closing the channel\<close>

text \<open>
  Claim C4, as stated, fails: when the peer rejects the command of \<open>put\<close> with the byte
  0x01, \<open>put\<close> raises and the channel it opened is still open (no operation has a
  \<open>finally\<close>; \<open>close\<close> is called at the end of the successful path only).
\<close>

theorem channel_left_open_after_failure:
  "outcome (put no_files [] (PBytes ''.'') False False
              (init_client [new_channel [Chunk [SOH]]] 4 False)) = Some (Inl (SCPException []))
   \<and> \<not> closed (store (final (put no_files [] (PBytes ''.'') False False
              (init_client [new_channel [Chunk [SOH]]] 4 False))) 0)
   \<and> channel (final (put no_files [] (PBytes ''.'') False False
              (init_client [new_channel [Chunk [SOH]]] 4 False))) = Some 0"
  by code_simp

lemma recv_file_closes_on_bad_header:
  assumes "channel s = Some c" and "parse_file cmd = None"
  shows "closed (store (snd (recv_file cmd s)) c)"
  using assms by (simp add: recv_file_def sendall_def chan_close_def)

lemma recv_file_closes_on_timeout:
  assumes ch: "channel s = Some c" and p: "parse_file cmd = Some (mode, sz, name)"
    and a: "sendall [NUL] (if sz = 0 then report name 1 1 s else report name sz 0 s) = (Inr (), s1)"
    and b: "recv_data name sz s1 = (Inl SocketTimeout, s2)"
  shows "closed (store (snd (recv_file cmd s)) c)"
proof -
  from a have "frame s1 = frame s" by (auto dest!: sendall_frame split: if_splits)
  moreover from b have "frame s2 = frame s1" by (rule recv_data_frame)
  ultimately have "channel s2 = Some c" using ch by (simp add: frame_def wire_def)
  moreover from p a b have "recv_file cmd s = on_timeout s2" by (simp add: recv_file_def)
  ultimately show ?thesis by (simp add: on_timeout_def chan_close_def)
qed

text \<open>
  Which channels of the store are closed. Nothing that a transfer calls changes it but
  \<open>chan.close()\<close> and \<open>self.close()\<close>.
\<close>

definition shut :: "client \<Rightarrow> nat \<Rightarrow> bool" where
  "shut s i = closed (store s i)"

lemma recv_shut: "recv n s = (r, s') \<Longrightarrow> shut s' = shut s"
  by (auto simp: recv_def shut_def chan_recv_def fun_eq_iff
           split: option.splits prod.splits list.splits event.splits if_splits)

lemma sendall_shut: "sendall d s = (r, s') \<Longrightarrow> shut s' = shut s"
  by (auto simp: sendall_def shut_def fun_eq_iff split: option.splits if_splits)

lemma exec_command_shut: "exec_command c s = (r, s') \<Longrightarrow> shut s' = shut s"
  by (auto simp: exec_command_def shut_def fun_eq_iff split: option.splits if_splits)

lemma report_shut [simp]: "shut (report name t p s) = shut s"
  by (simp add: report_def shut_def fun_eq_iff)

lemma recv_confirm_shut: "recv_confirm s = (r, s') \<Longrightarrow> shut s' = shut s"
proof -
  assume a: "recv_confirm s = (r, s')"
  obtain q s1 where b: "recv 1 s = (q, s1)" by (cases "recv 1 s")
  then have "shut s1 = shut s" by (rule recv_shut)
  moreover from a b have "shut s' = shut s1"
    by (auto simp: recv_confirm_def shut_def fun_eq_iff
             split: sum.splits if_splits option.splits)
  ultimately show ?thesis by simp
qed

lemma send_time_shut: "send_time m a s = (r, s') \<Longrightarrow> shut s' = shut s"
  by (auto simp: send_time_def split: prod.splits sum.splits
           dest!: sendall_shut recv_confirm_shut)

lemma send_body_shut:
  assumes "send_body bn sz fl fp s = Some q"
  shows "shut (snd q) = shut s"
proof (rule send_body.raw_induct
    [where P = "\<lambda>bn sz fl fp s q. shut (snd q) = shut s", OF _ assms])
  fix f bn sz fl fp s q
  assume IH: "\<And>bn sz fl fp s q. f bn sz fl fp s = Some q \<Longrightarrow> shut (snd q) = shut s"
    and eq: "(if fp < sz
      then (let data = take (buff_size s) (drop (pos fl) (content fl));
                fl1 = fl\<lparr>pos := pos fl + length data\<rparr>
            in case sendall data s of
                 (Inl e, s1) \<Rightarrow> Some (Inl e, s1)
               | (Inr _, s1) \<Rightarrow>
                   f bn sz fl1 (int (pos fl1)) (report bn sz (int (pos fl1)) s1))
      else Some (Inr (), s)) = Some q"
  show "shut (snd q) = shut s"
  proof (cases "fp < sz")
    case False
    with eq show ?thesis by auto
  next
    case True
    define data where "data = take (buff_size s) (drop (pos fl) (content fl))"
    obtain r s1 where sa: "sendall data s = (r, s1)" by (cases "sendall data s")
    then have f1: "shut s1 = shut s" by (rule sendall_shut)
    show ?thesis
    proof (cases r)
      case (Inl e)
      with eq True sa f1 show ?thesis by (auto simp: Let_def data_def [symmetric])
    next
      case (Inr u)
      with eq True sa have "f bn sz (fl\<lparr>pos := pos fl + length data\<rparr>) (int (pos fl + length data))
              (report bn sz (int (pos fl + length data)) s1) = Some q"
        by (simp add: Let_def data_def [symmetric])
      from IH [OF this] f1 show ?thesis by simp
    qed
  qed
qed

lemma sendall_shut_snd [simp]: "shut (snd (sendall d s)) = shut s"
  by (cases "sendall d s") (auto dest: sendall_shut)

lemma recv_shut_snd [simp]: "shut (snd (recv n s)) = shut s"
  by (cases "recv n s") (auto dest: recv_shut)

lemma recv_confirm_shut_snd [simp]: "shut (snd (recv_confirm s)) = shut s"
  by (cases "recv_confirm s") (auto dest: recv_confirm_shut)

lemma send_file_shut:
  assumes "send_file fl name mode sz s = Some q"
  shows "shut (snd q) = shut s"
  using assms
  by (auto simp: send_file_def Let_def
           split: pypath.splits option.splits prod.splits sum.splits if_splits
           dest!: sendall_shut recv_confirm_shut send_body_shut)

lemma send_files_shut:
  "send_files fs names s = Some q \<Longrightarrow> shut (snd q) = shut s"
proof (induction names arbitrary: s)
  case Nil
  then show ?case by auto
next
  case (Cons name rest)
  then show ?case
    by (auto split: option.splits prod.splits sum.splits if_splits
             dest!: send_time_shut send_file_shut)
qed

lemma send_popd_shut: "send_popd s = (r, s') \<Longrightarrow> shut s' = shut s"
  by (auto simp: send_popd_def split: prod.splits sum.splits
           dest!: sendall_shut recv_confirm_shut) (simp add: shut_def fun_eq_iff)

lemma send_pushd_shut: "send_pushd fs d s = (r, s') \<Longrightarrow> shut s' = shut s"
  by (auto simp: send_pushd_def Let_def split: option.splits prod.splits sum.splits if_splits
           dest!: sendall_shut recv_confirm_shut send_time_shut)
     (simp_all add: shut_def fun_eq_iff)

lemma chdir_loop_shut: "chdir_loop c m s = (r, s') \<Longrightarrow> shut s' = shut s"
proof (induction c m s rule: chdir_loop.induct)
  case (1 c m s)
  show ?case
  proof (cases "c \<noteq> m")
    case False
    with "1.prems" show ?thesis by (simp add: chdir_loop.simps [of c m s])
  next
    case True
    obtain q s1 where p: "send_popd s = (q, s1)" by (cases "send_popd s")
    then have w: "shut s1 = shut s" by (rule send_popd_shut)
    show ?thesis
    proof (cases q)
      case (Inl e)
      with True p w "1.prems" show ?thesis by (simp add: chdir_loop.simps [of c m s])
    next
      case (Inr u)
      with True p "1.prems" have "chdir_loop (dirname c) m s1 = (r, s')"
        by (simp add: chdir_loop.simps [of c m s])
      from "1.IH" [OF True p [symmetric] Inr this] w show ?thesis by simp
    qed
  qed
qed

lemma chdir_shut: "chdir fs a b s = (r, s') \<Longrightarrow> shut s' = shut s"
  by (auto simp: chdir_def Let_def split: prod.splits sum.splits
           dest!: chdir_loop_shut send_pushd_shut)

lemma walk_loop_shut: "walk_loop fs last_dir es s = Some q \<Longrightarrow> shut (snd q) = shut s"
proof (induction es arbitrary: last_dir s)
  case Nil
  then show ?case by auto
next
  case (Cons e es)
  obtain root dirs fls where e: "e = (root, dirs, fls)" by (cases e)
  from Cons.prems show ?case unfolding e
    by (auto split: option.splits prod.splits sum.splits if_splits
             dest!: chdir_shut send_files_shut Cons.IH)
qed

lemma pop_all_shut: "pop_all s = (r, s') \<Longrightarrow> shut s' = shut s"
proof (induction s rule: pop_all.induct)
  case (1 s)
  show ?case
  proof (cases "pushed s > 0")
    case False
    with "1.prems" show ?thesis by (simp add: pop_all.simps [of s])
  next
    case True
    obtain q s1 where p: "send_popd s = (q, s1)" by (cases "send_popd s")
    then have w: "shut s1 = shut s" by (rule send_popd_shut)
    show ?thesis
    proof (cases q)
      case (Inl e)
      with True p w "1.prems" show ?thesis by (simp add: pop_all.simps [of s])
    next
      case (Inr u)
      with True p "1.prems" have "pop_all s1 = (r, s')"
        by (simp add: pop_all.simps [of s])
      from "1.IH" [OF True p [symmetric] Inr this] w show ?thesis by simp
    qed
  qed
qed

lemma pop_all_shut_snd [simp]: "shut (snd (pop_all s)) = shut s"
  by (cases "pop_all s") (auto dest: pop_all_shut)

lemma send_recursive_shut: "send_recursive fs bases s = Some q \<Longrightarrow> shut (snd q) = shut s"
proof (induction bases arbitrary: s)
  case Nil
  then show ?case by auto
next
  case (Cons b bs)
  from Cons.prems show ?case
    by (auto simp del: send_files.simps split: option.splits prod.splits sum.splits
             dest!: send_files_shut walk_loop_shut pop_all_shut Cons.IH)
qed


lemma recv_body_shut: "recv_body name sz buff acc s = (r, s') \<Longrightarrow> shut s' = shut s"
proof (induction name sz buff acc s rule: recv_body.induct)
  case (1 name sz buff acc s)
  show ?case
  proof (cases "int (length acc) < sz")
    case False
    with "1.prems" show ?thesis by (simp add: recv_body.simps [of name sz buff acc s])
  next
    case True
    define buff1 where "buff1 = (if sz - int (length acc) \<le> int buff
                                 then nat (sz - int (length acc)) else buff)"
    obtain q s1 where rc: "recv buff1 s = (q, s1)" by (cases "recv buff1 s")
    then have le: "shut s1 = shut s" by (rule recv_shut)
    show ?thesis
    proof (cases q)
      case (Inl e)
      with True rc "1.prems" le show ?thesis
        by (simp add: recv_body.simps [of name sz buff acc s] buff1_def [symmetric])
    next
      case (Inr data)
      show ?thesis
      proof (cases "data = []")
        case True
        with \<open>int (length acc) < sz\<close> Inr rc "1.prems" le show ?thesis
          by (simp add: recv_body.simps [of name sz buff acc s] buff1_def [symmetric])
      next
        case False
        with True Inr rc "1.prems"
        have "recv_body name sz buff1 (acc @ data)
                (report name sz (int (length (acc @ data))) s1) = (r, s')"
          by (simp add: recv_body.simps [of name sz buff acc s] buff1_def [symmetric])
        from "1.IH" [OF True buff1_def rc [symmetric] Inr False this] le
        show ?thesis by simp
      qed
    qed
  qed
qed

lemma recv_data_shut: "recv_data name sz s = (r, s') \<Longrightarrow> shut s' = shut s"
  by (auto simp: recv_data_def split: prod.splits sum.splits if_splits
           dest!: recv_body_shut recv_shut)

lemma set_time_shut: "set_time cmd s = (r, s') \<Longrightarrow> shut s' = shut s"
  by (cases "parse_time cmd"; cases "sendall [SOH] s"; cases "fst (sendall [SOH] s)")
     (auto simp: set_time_def shut_def fun_eq_iff dest!: sendall_shut)

lemma recv_pushd_shut: "recv_pushd cmd s = (r, s') \<Longrightarrow> shut s' = shut s"
  by (cases "parse_dir cmd"; cases "sendall [SOH] s"; cases "fst (sendall [SOH] s)")
     (auto simp: recv_pushd_def Let_def shut_def fun_eq_iff dest!: sendall_shut)

lemma recv_popd_shut [simp]: "shut (recv_popd s) = shut s"
  by (simp add: recv_popd_def shut_def fun_eq_iff)

text \<open>The two failures of \<open>_recv_file\<close> that close the channel, by their messages.\<close>

definition closing_failure :: "exn \<Rightarrow> bool" where
  "closing_failure e \<longleftrightarrow> e = SCPException ''Bad file format''
     \<or> e = SCPException ''Error receiving, socket.timeout''"

lemma recv_file_shut:
  assumes "recv_file cmd s = (r, s')"
  shows "shut s' = shut s \<or> (\<exists>e. r = Inl e \<and> closing_failure e)"
proof (cases "parse_file cmd")
  case None
  obtain q1 s1 where a: "sendall [SOH] s = (q1, s1)" by (cases "sendall [SOH] s")
  then have d1: "shut s1 = shut s" by (rule sendall_shut)
  show ?thesis
  proof (cases q1)
    case (Inl e)
    with assms None a d1 show ?thesis by (simp add: recv_file_def)
  next
    case (Inr u)
    obtain q2 s2 where b: "chan_close s1 = (q2, s2)" by (cases "chan_close s1")
    show ?thesis
    proof (cases q2)
      case (Inl e)
      with b have "s2 = s1" by (auto simp: chan_close_def split: option.splits)
      with assms None a Inr b Inl d1 show ?thesis by (simp add: recv_file_def)
    next
      case r2: (Inr v)
      with assms None a Inr b show ?thesis
        by (auto simp: recv_file_def closing_failure_def)
    qed
  qed
next
  case (Some p)
  obtain mode sz name where p: "p = (mode, sz, name)" by (cases p)
  define s0 where "s0 = (if sz = 0 then report name 1 1 s else report name sz 0 s)"
  have d0: "shut s0 = shut s" by (simp add: s0_def)
  obtain q1 s1 where a: "sendall [NUL] s0 = (q1, s1)" by (cases "sendall [NUL] s0")
  then have d1: "shut s1 = shut s0" by (rule sendall_shut)
  obtain q2 s2 where b: "recv_data name sz s1 = (q2, s2)" by (cases "recv_data name sz s1")
  then have d2: "shut s2 = shut s1" by (rule recv_data_shut)
  have e: "\<And>f. shut (s2\<lparr>files := f, utime := None\<rparr>) = shut s2"
    by (simp add: shut_def fun_eq_iff)
  show ?thesis
  proof (cases q1)
    case (Inl e1)
    with assms Some p a d0 d1 show ?thesis by (simp add: recv_file_def s0_def [symmetric])
  next
    case (Inr u)
    show ?thesis
    proof (cases q2)
      case (Inl e2)
      show ?thesis
      proof (cases "e2 = SocketTimeout")
        case False
        with assms Some p a b Inr Inl d0 d1 d2 show ?thesis
          by (simp add: recv_file_def s0_def [symmetric])
      next
        case True
        obtain q3 s3 where c: "chan_close s2 = (q3, s3)" by (cases "chan_close s2")
        show ?thesis
        proof (cases q3)
          case l3: (Inl e3)
          with c have "s3 = s2" by (auto simp: chan_close_def split: option.splits)
          with assms Some p a b Inr Inl True c l3 d0 d1 d2 show ?thesis
            by (simp add: recv_file_def s0_def [symmetric] on_timeout_def)
        next
          case r3: (Inr v)
          with assms Some p a b Inr Inl True c show ?thesis
            by (auto simp: recv_file_def s0_def [symmetric] on_timeout_def closing_failure_def)
        qed
      qed
    next
      case (Inr data)
      with assms Some p a b \<open>q1 = Inr u\<close> e d0 d1 d2 show ?thesis
        by (auto simp: recv_file_def s0_def [symmetric])
    qed
  qed
qed

lemma dispatch_shut:
  assumes "dispatch msg s = (r, s')"
  shows "shut s' = shut s \<or> (\<exists>e. r = Inl e \<and> closing_failure e)"
  using assms
proof (cases rule: dispatch_cases)
  case C
  then show ?thesis by (rule recv_file_shut)
next
  case T
  then show ?thesis by (simp add: set_time_shut)
next
  case D
  then show ?thesis by (simp add: recv_pushd_shut)
next
  case E
  then show ?thesis by simp
next
  case other
  then show ?thesis by simp
qed

lemma recv_all_shut:
  assumes "recv_all s = (r, s')"
  shows "shut s' = shut s \<or> (\<exists>e. r = Inl e \<and> closing_failure e)"
  using assms
proof (induction s rule: recv_all.induct)
  case (1 s)
  show ?case
  proof (cases "channel s")
    case None
    with "1.prems" show ?thesis by (simp add: recv_all.simps [of s])
  next
    case (Some i)
    show ?thesis
    proof (cases "closed (store s i)")
      case True
      with Some "1.prems" show ?thesis by (simp add: recv_all.simps [of s])
    next
      case False
      obtain q1 s1 where a: "sendall [NUL] s = (q1, s1)" by (cases "sendall [NUL] s")
      then have i1: "shut s1 = shut s" by (rule sendall_shut)
      show ?thesis
      proof (cases q1)
        case (Inl e)
        with Some False a i1 "1.prems" show ?thesis by (simp add: recv_all.simps [of s])
      next
        case q1: (Inr u1)
        obtain q2 s2 where b: "recv 1024 s1 = (q2, s2)" by (cases "recv 1024 s1")
        then have i2: "shut s2 = shut s1" by (rule recv_shut)
        show ?thesis
        proof (cases q2)
          case (Inl e)
          with Some False a q1 b i1 i2 "1.prems" show ?thesis
            by (simp add: recv_all.simps [of s])
        next
          case q2: (Inr msg)
          show ?thesis
          proof (cases "msg = [] \<or> last msg \<noteq> NL")
            case True
            with Some False a q1 b q2 i1 i2 "1.prems" show ?thesis
              by (auto simp: recv_all.simps [of s] split: if_splits)
          next
            case ok: False
            obtain q3 s3 where c: "dispatch (butlast msg) s2 = (q3, s3)"
              by (cases "dispatch (butlast msg) s2")
            from dispatch_shut [OF c]
            have i3: "shut s3 = shut s2 \<or> (\<exists>e. q3 = Inl e \<and> closing_failure e)" .
            show ?thesis
            proof (cases q3)
              case (Inl e)
              with Some False a q1 b q2 ok c "1.prems" have "r = Inl e" "s' = s3"
                by (simp_all add: recv_all.simps [of s])
              with i1 i2 i3 Inl show ?thesis by auto
            next
              case q3: (Inr u3)
              with Some False a q1 b q2 ok c "1.prems" have run: "recv_all s3 = (r, s')"
                by (simp add: recv_all.simps [of s])
              from ok have m: "msg \<noteq> []" "\<not> last msg \<noteq> NL" by simp_all
              from "1.IH" [OF Some False a [symmetric] q1 b [symmetric] q2 m c [symmetric] q3 run]
                i1 i2 i3 q3
              show ?thesis by auto
            qed
          qed
        qed
      qed
    qed
  qed
qed


lemma shut_closed: "shut s' = shut s \<Longrightarrow> closed (store s' i) = closed (store s i)"
  by (auto simp: shut_def dest: fun_cong)

lemma wire_channel: "wire s' = wire s \<Longrightarrow> channel s' = channel s"
  by (simp add: wire_def)

lemma exec_command_channel: "exec_command c s = (r, s') \<Longrightarrow> channel s' = channel s"
  by (auto simp: exec_command_def split: option.splits)

lemma shut_pushed [simp]: "shut (s\<lparr>pushed := n\<rparr>) = shut s"
  by (simp add: shut_def fun_eq_iff)

lemma put_fails:
  assumes op: "open_chan (s\<lparr>preserve_times := p\<rparr>) = (Inr (), s1)"
    and run: "put fs fls path rc p s = Some (Inl e, s')"
  shows "channel s' = channel s1" and "shut s' = shut s1"
proof -
  obtain q2 s2 where ex: "exec_command (put_command s1 rc path) (s1\<lparr>pushed := 0\<rparr>) = (q2, s2)"
    by (cases "exec_command (put_command s1 rc path) (s1\<lparr>pushed := 0\<rparr>)")
  have k2: "channel s2 = channel s1" "shut s2 = shut s1"
    using exec_command_channel [OF ex] exec_command_shut [OF ex] by simp_all
  have "channel s' = channel s2 \<and> shut s' = shut s2"
  proof (cases q2)
    case (Inl e2)
    with run op ex show ?thesis by (simp add: put_def)
  next
    case (Inr u2)
    obtain q3 s3 where rc3: "recv_confirm s2 = (q3, s3)" by (cases "recv_confirm s2")
    have k3: "channel s3 = channel s2" "shut s3 = shut s2"
      using recv_confirm_frame [OF rc3, THEN frame_wire, THEN wire_channel]
        recv_confirm_shut [OF rc3] by simp_all
    show ?thesis
    proof (cases q3)
      case (Inl e3)
      with run op ex Inr rc3 k3 show ?thesis by (simp add: put_def)
    next
      case r3: (Inr u3)
      define body where "body = (if rc then send_recursive fs fls s3 else send_files fs fls s3)"
      from run op ex Inr rc3 r3 obtain q4 s4 where b: "body = Some (q4, s4)"
        by (cases body) (auto simp: put_def body_def [symmetric])
      then have "wire s4 = wire s3"
        by (auto simp: body_def split: if_splits
                 dest!: send_recursive_wire send_files_frame frame_wire)
      then have c4: "channel s4 = channel s3" by (rule wire_channel)
      from b have "shut s4 = shut s3"
        by (auto simp: body_def split: if_splits dest!: send_recursive_shut send_files_shut)
      note k4 = c4 this
      from run op ex Inr rc3 r3 b have "q4 = Inl e" "s' = s4"
        by (cases q4; simp add: put_def body_def [symmetric])+
      with k3 k4 show ?thesis by simp
    qed
  qed
  with k2 show "channel s' = channel s1" and "shut s' = shut s1" by simp_all
qed

lemma putfo_fails:
  assumes op: "open_chan s = (Inr (), s1)"
    and run: "putfo fl path mode sz s = Some (Inl e, s')"
  shows "channel s' = channel s1" and "shut s' = shut s1"
proof -
  define sz1 where "sz1 = (case sz of None \<Rightarrow> int (length (content fl)) - int (pos fl) | Some n \<Rightarrow> n)"
  obtain q2 s2 where ex: "exec_command (putfo_command s1 path) s1 = (q2, s2)"
    by (cases "exec_command (putfo_command s1 path) s1")
  have k2: "channel s2 = channel s1" "shut s2 = shut s1"
    using exec_command_channel [OF ex] exec_command_shut [OF ex] by simp_all
  have "channel s' = channel s2 \<and> shut s' = shut s2"
  proof (cases q2)
    case (Inl e2)
    with run op ex show ?thesis by (simp add: putfo_def Let_def)
  next
    case (Inr u2)
    obtain q3 s3 where rc3: "recv_confirm s2 = (q3, s3)" by (cases "recv_confirm s2")
    have k3: "channel s3 = channel s2" "shut s3 = shut s2"
      using recv_confirm_frame [OF rc3, THEN frame_wire, THEN wire_channel]
        recv_confirm_shut [OF rc3] by simp_all
    show ?thesis
    proof (cases q3)
      case (Inl e3)
      with run op ex Inr rc3 k3 show ?thesis by (simp add: putfo_def Let_def)
    next
      case r3: (Inr u3)
      from run op ex Inr rc3 r3 obtain q4 s4 where b: "send_file fl path mode sz1 s3 = Some (q4, s4)"
        by (cases "send_file fl path mode sz1 s3")
           (auto simp: putfo_def Let_def sz1_def [symmetric])
      then have "wire s4 = wire s3" by (auto dest!: send_file_frame frame_wire)
      then have c4: "channel s4 = channel s3" by (rule wire_channel)
      from b have "shut s4 = shut s3" by (auto dest!: send_file_shut)
      note k4 = c4 this
      from run op ex Inr rc3 r3 b have "q4 = Inl e" "s' = s4"
        by (cases q4; simp add: putfo_def Let_def sz1_def [symmetric])+
      with k3 k4 show ?thesis by simp
    qed
  qed
  with k2 show "channel s' = channel s1" and "shut s' = shut s1" by simp_all
qed

lemma getfo_fails:
  assumes op: "open_chan (s\<lparr>files := [], depth := 0\<rparr>) = (Inr (), s1)"
    and run: "getfo paths rc p s = (Inl e, s')"
  shows "channel s' = channel s1" and "shut s' = shut s1 \<or> closing_failure e"
proof -
  obtain q2 s2 where ex: "exec_command (getfo_command s1 rc p paths) (s1\<lparr>pushed := 0\<rparr>) = (q2, s2)"
    by (cases "exec_command (getfo_command s1 rc p paths) (s1\<lparr>pushed := 0\<rparr>)")
  have k2: "channel s2 = channel s1" "shut s2 = shut s1"
    using exec_command_channel [OF ex] exec_command_shut [OF ex] by simp_all
  have "channel s' = channel s2 \<and> (shut s' = shut s2 \<or> closing_failure e)"
  proof (cases q2)
    case (Inl e2)
    with run op ex show ?thesis by (simp add: getfo_def)
  next
    case (Inr u2)
    obtain q3 s3 where rc3: "recv_all s2 = (q3, s3)" by (cases "recv_all s2")
    have k3: "channel s3 = channel s2"
      using recv_all_wire [OF rc3, THEN conjunct1, THEN wire_channel] .
    from run op ex Inr rc3 have "q3 = Inl e" "s' = s3"
      by (cases q3; simp add: getfo_def)+
    with recv_all_shut [OF rc3] k3 show ?thesis by auto
  qed
  with k2 show "channel s' = channel s1" and "shut s' = shut s1 \<or> closing_failure e"
    by simp_all
qed

lemma recv_file_other_failure:
  assumes p: "parse_file cmd = Some (mode, sz, name)"
    and a: "sendall [NUL] (if sz = 0 then report name 1 1 s else report name sz 0 s) = (Inr (), s1)"
    and b: "recv_data name sz s1 = (Inl e, s2)" and e: "e \<noteq> SocketTimeout"
  shows "recv_file cmd s = (Inl e, s2)" and "shut s2 = shut s"
proof -
  from p a b e show "recv_file cmd s = (Inl e, s2)" by (simp add: recv_file_def)
  from a have "shut s1 = shut s" by (auto dest!: sendall_shut split: if_splits)
  with recv_data_shut [OF b] show "shut s2 = shut s" by simp
qed

text \<open>
  Claim C4, amended. Every transfer operation closes the channel it opened, and forgets
  it, when it completes successfully. When it fails, the channel is closed only where the
  failing step closes it itself, which \<open>_recv_file\<close> does for a \<open>C\<close> record that does not
  parse and for a socket timeout while the body or the status of a file is received. Any
  other failure reaches the caller with the channel as it was: \<open>put\<close> and \<open>putfo\<close> that
  fail leave the channel open and current; \<open>getfo\<close> that fails leaves it current, and open
  unless the exception is one of the two that \<open>_recv_file\<close> raises after closing; any
  other failure of \<open>_recv_file\<close>, and \<open>_recv_confirm\<close>, \<open>_set_time\<close> and \<open>_recv_pushd\<close>
  however they end, leave every channel as open or closed as it was.
\<close>

theorem channel_closed_or_left_open:
  "(open_chan (s\<lparr>preserve_times := p\<rparr>) = (Inr (), s1) \<longrightarrow> channel s1 = Some i \<longrightarrow>
      put fs fls path rc p s = Some (Inr (), s') \<longrightarrow>
      closed (store s' i) \<and> channel s' = None)
   \<and> (open_chan s = (Inr (), s3) \<longrightarrow> channel s3 = Some k \<longrightarrow>
      putfo fl path mode sz s = Some (Inr (), sf) \<longrightarrow>
      closed (store sf k) \<and> channel sf = None)
   \<and> (open_chan (s\<lparr>files := [], depth := 0\<rparr>) = (Inr (), s2) \<longrightarrow> channel s2 = Some j \<longrightarrow>
      getfo paths rc p s = (Inr got, sg) \<longrightarrow>
      closed (store sg j) \<and> channel sg = None)
   \<and> (channel s = Some c \<longrightarrow> parse_file cmd = None \<longrightarrow>
      closed (store (snd (recv_file cmd s)) c))
   \<and> (channel s = Some c \<longrightarrow> parse_file cmd = Some (rmode, rsz, name) \<longrightarrow>
      sendall [NUL] (if rsz = 0 then report name 1 1 s else report name rsz 0 s) = (Inr (), t1) \<longrightarrow>
      recv_data name rsz t1 = (Inl SocketTimeout, t2) \<longrightarrow>
      closed (store (snd (recv_file cmd s)) c))
   \<and> (open_chan (s\<lparr>preserve_times := p\<rparr>) = (Inr (), s1) \<longrightarrow> channel s1 = Some i \<longrightarrow>
      \<not> closed (store s1 i) \<longrightarrow> put fs fls path rc p s = Some (Inl e, s') \<longrightarrow>
      \<not> closed (store s' i) \<and> channel s' = Some i)
   \<and> (open_chan s = (Inr (), s3) \<longrightarrow> channel s3 = Some k \<longrightarrow>
      \<not> closed (store s3 k) \<longrightarrow> putfo fl path mode sz s = Some (Inl e, sf) \<longrightarrow>
      \<not> closed (store sf k) \<and> channel sf = Some k)
   \<and> (open_chan (s\<lparr>files := [], depth := 0\<rparr>) = (Inr (), s2) \<longrightarrow> channel s2 = Some j \<longrightarrow>
      \<not> closed (store s2 j) \<longrightarrow> getfo paths rc p s = (Inl e, sg) \<longrightarrow>
      channel sg = Some j
      \<and> (closed (store sg j) \<longrightarrow>
           e = SCPException ''Bad file format''
           \<or> e = SCPException ''Error receiving, socket.timeout''))
   \<and> (parse_file cmd = Some (rmode, rsz, name) \<longrightarrow>
      sendall [NUL] (if rsz = 0 then report name 1 1 s else report name rsz 0 s) = (Inr (), t1) \<longrightarrow>
      recv_data name rsz t1 = (Inl e, t2) \<longrightarrow> e \<noteq> SocketTimeout \<longrightarrow>
      recv_file cmd s = (Inl e, t2) \<and> closed (store t2 c) = closed (store s c))
   \<and> closed (store (snd (recv_confirm s)) c) = closed (store s c)
   \<and> closed (store (snd (set_time cmd s)) c) = closed (store s c)
   \<and> closed (store (snd (recv_pushd cmd s)) c) = closed (store s c)"
proof -
  have f1: "\<not> closed (store s' i) \<and> channel s' = Some i"
    if "open_chan (s\<lparr>preserve_times := p\<rparr>) = (Inr (), s1)" "channel s1 = Some i"
      "\<not> closed (store s1 i)" "put fs fls path rc p s = Some (Inl e, s')"
    using put_fails(1) [OF that(1,4)] shut_closed [OF put_fails(2) [OF that(1,4)], of i] that(2,3)
    by simp
  have f2: "\<not> closed (store sf k) \<and> channel sf = Some k"
    if "open_chan s = (Inr (), s3)" "channel s3 = Some k"
      "\<not> closed (store s3 k)" "putfo fl path mode sz s = Some (Inl e, sf)"
    using putfo_fails(1) [OF that(1,4)] shut_closed [OF putfo_fails(2) [OF that(1,4)], of k]
      that(2,3)
    by simp
  have f3: "channel sg = Some j
      \<and> (closed (store sg j) \<longrightarrow>
           e = SCPException ''Bad file format''
           \<or> e = SCPException ''Error receiving, socket.timeout'')"
    if "open_chan (s\<lparr>files := [], depth := 0\<rparr>) = (Inr (), s2)" "channel s2 = Some j"
      "\<not> closed (store s2 j)" "getfo paths rc p s = (Inl e, sg)"
    using getfo_fails [OF that(1,4)] that(2,3)
    by (auto simp: closing_failure_def dest: shut_closed [of sg s2 j])
  have f4: "recv_file cmd s = (Inl e, t2) \<and> closed (store t2 c) = closed (store s c)"
    if "parse_file cmd = Some (rmode, rsz, name)"
      "sendall [NUL] (if rsz = 0 then report name 1 1 s else report name rsz 0 s) = (Inr (), t1)"
      "recv_data name rsz t1 = (Inl e, t2)" "e \<noteq> SocketTimeout"
    using recv_file_other_failure(1) [OF that]
      shut_closed [OF recv_file_other_failure(2) [OF that], of c]
    by simp
  have f5: "closed (store (snd (recv_confirm s)) c) = closed (store s c)"
    "closed (store (snd (set_time cmd s)) c) = closed (store s c)"
    "closed (store (snd (recv_pushd cmd s)) c) = closed (store s c)"
    using recv_confirm_shut [of s "fst (recv_confirm s)" "snd (recv_confirm s)", THEN shut_closed]
      set_time_shut [of cmd s "fst (set_time cmd s)" "snd (set_time cmd s)", THEN shut_closed]
      recv_pushd_shut [of cmd s "fst (recv_pushd cmd s)" "snd (recv_pushd cmd s)",
        THEN shut_closed]
    by simp_all
  from put_run(2) [where s = s and p = p and ?s1.0 = s1 and i = i and fs = fs and fls = fls
      and path = path and rc = rc and r = "Inr ()" and s' = s']
    getfo_run(2) [where s = s and ?s1.0 = s2 and i = j and paths = paths and rc = rc and p = p
      and r = "Inr got" and s' = sg]
    putfo_run(2) [where s = s and ?s1.0 = s3 and i = k and fl = fl and path = path
      and mode = mode and sz = sz and r = "Inr ()" and s' = sf]
    recv_file_closes_on_bad_header [of s c cmd]
    recv_file_closes_on_timeout [of s c cmd rmode rsz name t1 t2]
  have old: "(open_chan (s\<lparr>preserve_times := p\<rparr>) = (Inr (), s1) \<longrightarrow> channel s1 = Some i \<longrightarrow>
      put fs fls path rc p s = Some (Inr (), s') \<longrightarrow>
      closed (store s' i) \<and> channel s' = None)
   \<and> (open_chan s = (Inr (), s3) \<longrightarrow> channel s3 = Some k \<longrightarrow>
      putfo fl path mode sz s = Some (Inr (), sf) \<longrightarrow>
      closed (store sf k) \<and> channel sf = None)
   \<and> (open_chan (s\<lparr>files := [], depth := 0\<rparr>) = (Inr (), s2) \<longrightarrow> channel s2 = Some j \<longrightarrow>
      getfo paths rc p s = (Inr got, sg) \<longrightarrow>
      closed (store sg j) \<and> channel sg = None)
   \<and> (channel s = Some c \<longrightarrow> parse_file cmd = None \<longrightarrow>
      closed (store (snd (recv_file cmd s)) c))
   \<and> (channel s = Some c \<longrightarrow> parse_file cmd = Some (rmode, rsz, name) \<longrightarrow>
      sendall [NUL] (if rsz = 0 then report name 1 1 s else report name rsz 0 s) = (Inr (), t1) \<longrightarrow>
      recv_data name rsz t1 = (Inl SocketTimeout, t2) \<longrightarrow>
      closed (store (snd (recv_file cmd s)) c))"
    by simp
  from old f1 f2 f3 f4 f5 show ?thesis by blast
qed

definition idle_demo :: client where
  "idle_demo = init_client [new_channel []] 4 False"

definition stall_demo :: client where
  "stall_demo = (init_client [] 4 False)
     \<lparr>channel := Some 0, store := (\<lambda>_. new_channel [Chunk ''ab'', Timeout])\<rparr>"

definition reject_demo :: client where
  "reject_demo = init_client [new_channel [Chunk [NUL], Chunk (SOH # ''bad mode'' @ [NL])]] 4 False"

definition baddir_demo :: client where
  "baddir_demo = init_client [new_channel [Chunk (''D0755 0'' @ [NL])]] 4 False"

definition short_demo :: client where
  "short_demo = (init_client [] 4 False)
     \<lparr>channel := Some 0, store := (\<lambda>_. new_channel [Chunk ''ab''])\<rparr>"

theorem channel_closed_or_left_open_witness:
  "fst (open_chan (cmd_demo\<lparr>preserve_times := False\<rparr>)) = Inr ()
   \<and> channel (snd (open_chan (cmd_demo\<lparr>preserve_times := False\<rparr>))) = Some 0
   \<and> outcome (put no_files [] (PBytes ''.'') False False cmd_demo) = Some (Inr ())
   \<and> closed (store (final (put no_files [] (PBytes ''.'') False False cmd_demo)) 0)
   \<and> channel (final (put no_files [] (PBytes ''.'') False False cmd_demo)) = None
   \<and> fst (open_chan cmd_demo) = Inr () \<and> channel (snd (open_chan cmd_demo)) = Some 0
   \<and> outcome (putfo \<lparr>content = ''hello'', pos = 0\<rparr> (PStr ''f'') ''0644'' None cmd_demo)
       = Some (Inr ())
   \<and> closed (store (final
        (putfo \<lparr>content = ''hello'', pos = 0\<rparr> (PStr ''f'') ''0644'' None cmd_demo)) 0)
   \<and> fst (open_chan (idle_demo\<lparr>files := [], depth := 0\<rparr>)) = Inr ()
   \<and> channel (snd (open_chan (idle_demo\<lparr>files := [], depth := 0\<rparr>))) = Some 0
   \<and> fst (getfo [PStr ''a''] False False idle_demo) = Inr []
   \<and> closed (store (snd (getfo [PStr ''a''] False False idle_demo)) 0)
   \<and> channel stall_demo = Some 0 \<and> parse_file ''0644 x y'' = None
   \<and> closed (store (snd (recv_file ''0644 x y'' stall_demo)) 0)
   \<and> parse_file ''0644 3 y'' = Some (420, 3, ''y'')
   \<and> fst (sendall [NUL] (report ''y'' 3 0 stall_demo)) = Inr ()
   \<and> fst (recv_data ''y'' 3 (snd (sendall [NUL] (report ''y'' 3 0 stall_demo))))
       = Inl SocketTimeout
   \<and> closed (store (snd (recv_file ''0644 3 y'' stall_demo)) 0)
   \<and> \<not> closed (store (snd (open_chan (idle_demo\<lparr>preserve_times := False\<rparr>))) 0)
   \<and> outcome (put no_files [] (PBytes ''.'') False False idle_demo)
       = Some (Inl (SCPException ''No response from server''))
   \<and> \<not> closed (store (final (put no_files [] (PBytes ''.'') False False idle_demo)) 0)
   \<and> channel (final (put no_files [] (PBytes ''.'') False False idle_demo)) = Some 0
   \<and> \<not> closed (store (snd (open_chan reject_demo)) 0)
   \<and> outcome (putfo \<lparr>content = ''hello'', pos = 0\<rparr> (PStr ''f'') ''0644'' None reject_demo)
       = Some (Inl (SCPException []))
   \<and> \<not> closed (store (final
        (putfo \<lparr>content = ''hello'', pos = 0\<rparr> (PStr ''f'') ''0644'' None reject_demo)) 0)
   \<and> channel (final
        (putfo \<lparr>content = ''hello'', pos = 0\<rparr> (PStr ''f'') ''0644'' None reject_demo)) = Some 0
   \<and> \<not> closed (store (snd (open_chan (baddir_demo\<lparr>files := [], depth := 0\<rparr>))) 0)
   \<and> fst (getfo [PStr ''a''] True False baddir_demo)
       = Inl (SCPException ''Bad directory format'')
   \<and> \<not> closed (store (snd (getfo [PStr ''a''] True False baddir_demo)) 0)
   \<and> channel (snd (getfo [PStr ''a''] True False baddir_demo)) = Some 0
   \<and> fst (sendall [NUL] (report ''y'' 3 0 short_demo)) = Inr ()
   \<and> fst (recv_data ''y'' 3 (snd (sendall [NUL] (report ''y'' 3 0 short_demo))))
       = Inl (SCPException ''Underlying channel was closed'')
   \<and> fst (recv_file ''0644 3 y'' short_demo)
       = Inl (SCPException ''Underlying channel was closed'')
   \<and> \<not> closed (store (snd (recv_file ''0644 3 y'' short_demo)) 0)"
proof -
  let ?put = "put no_files [] (PBytes ''.'') False False cmd_demo"
  let ?get = "getfo [PStr ''a''] False False idle_demo"
  let ?putfo = "putfo \<lparr>content = ''hello'', pos = 0\<rparr> (PStr ''f'') ''0644'' None cmd_demo"
  let ?t1 = "snd (sendall [NUL] (report ''y'' 3 0 stall_demo))"
  have o1: "fst (open_chan (cmd_demo\<lparr>preserve_times := False\<rparr>)) = Inr ()"
    and c1: "channel (snd (open_chan (cmd_demo\<lparr>preserve_times := False\<rparr>))) = Some 0"
    and o2: "fst (open_chan (idle_demo\<lparr>files := [], depth := 0\<rparr>)) = Inr ()"
    and c2: "channel (snd (open_chan (idle_demo\<lparr>files := [], depth := 0\<rparr>))) = Some 0"
    and o3: "fst (open_chan cmd_demo) = Inr ()"
    and c3: "channel (snd (open_chan cmd_demo)) = Some 0"
    and e1: "outcome ?put = Some (Inr ())"
    and e2: "fst ?get = Inr []"
    and e3: "outcome ?putfo = Some (Inr ())"
    and c4: "channel stall_demo = Some 0"
    and p4: "parse_file ''0644 x y'' = None"
    and p5: "parse_file ''0644 3 y'' = Some (420, 3, ''y'')"
    and a5: "fst (sendall [NUL] (report ''y'' 3 0 stall_demo)) = Inr ()"
    and b5: "fst (recv_data ''y'' 3 ?t1) = Inl SocketTimeout"
    by code_simp+
  from o1 have o1': "open_chan (cmd_demo\<lparr>preserve_times := False\<rparr>)
                      = (Inr (), snd (open_chan (cmd_demo\<lparr>preserve_times := False\<rparr>)))"
    by (simp add: prod_eq_iff)
  from o2 have o2': "open_chan (idle_demo\<lparr>files := [], depth := 0\<rparr>)
                      = (Inr (), snd (open_chan (idle_demo\<lparr>files := [], depth := 0\<rparr>)))"
    by (simp add: prod_eq_iff)
  from o3 have o3': "open_chan cmd_demo = (Inr (), snd (open_chan cmd_demo))"
    by (simp add: prod_eq_iff)
  from e2 have e2': "?get = (Inr [], snd ?get)" by (simp add: prod_eq_iff)
  from a5 have a5': "sendall [NUL] (if (3::int) = 0 then report ''y'' 1 1 stall_demo
                       else report ''y'' 3 0 stall_demo) = (Inr (), ?t1)"
    by (simp add: prod_eq_iff)
  from b5 have b5': "recv_data ''y'' 3 ?t1 = (Inl SocketTimeout, snd (recv_data ''y'' 3 ?t1))"
    by (simp add: prod_eq_iff)
  from channel_closed_or_left_open
    [where s = cmd_demo and p = False and rc = False and i = 0
       and ?s1.0 = "snd (open_chan (cmd_demo\<lparr>preserve_times := False\<rparr>))"
       and fs = no_files and fls = "[]" and path = "PBytes ''.''" and s' = "final ?put"]
    o1' c1 returned [OF e1]
  have 1: "closed (store (final ?put) 0)" "channel (final ?put) = None"
    by simp_all
  from channel_closed_or_left_open
    [where s = idle_demo and p = False and rc = False and j = 0
       and ?s2.0 = "snd (open_chan (idle_demo\<lparr>files := [], depth := 0\<rparr>))"
       and paths = "[PStr ''a'']" and got = "[]" and sg = "snd ?get"]
    o2' c2 e2'
  have 5: "closed (store (snd ?get) 0)"
    by simp
  from channel_closed_or_left_open
    [where s = cmd_demo and k = 0 and ?s3.0 = "snd (open_chan cmd_demo)"
       and fl = "\<lparr>content = ''hello'', pos = 0\<rparr>" and path = "PStr ''f''" and mode = "''0644''"
       and sz = None and sf = "final ?putfo"]
    o3' c3 returned [OF e3]
  have 2: "closed (store (final ?putfo) 0)" by simp
  from channel_closed_or_left_open [where s = stall_demo and c = 0 and cmd = "''0644 x y''"] c4 p4
  have 3: "closed (store (snd (recv_file ''0644 x y'' stall_demo)) 0)" by simp
  from channel_closed_or_left_open
    [where s = stall_demo and c = 0 and cmd = "''0644 3 y''" and rmode = 420 and rsz = 3
       and name = "''y''" and ?t1.0 = ?t1 and ?t2.0 = "snd (recv_data ''y'' 3 ?t1)"]
    c4 p5 a5' b5'
  have 4: "closed (store (snd (recv_file ''0644 3 y'' stall_demo)) 0)" by simp
  let ?fput = "put no_files [] (PBytes ''.'') False False idle_demo"
  let ?fputfo = "putfo \<lparr>content = ''hello'', pos = 0\<rparr> (PStr ''f'') ''0644'' None reject_demo"
  let ?fget = "getfo [PStr ''a''] True False baddir_demo"
  let ?u1 = "snd (sendall [NUL] (report ''y'' 3 0 short_demo))"
  have o6: "fst (open_chan (idle_demo\<lparr>preserve_times := False\<rparr>)) = Inr ()"
    and c6: "channel (snd (open_chan (idle_demo\<lparr>preserve_times := False\<rparr>))) = Some 0"
    and n6: "\<not> closed (store (snd (open_chan (idle_demo\<lparr>preserve_times := False\<rparr>))) 0)"
    and e6: "outcome ?fput = Some (Inl (SCPException ''No response from server''))"
    and o7: "fst (open_chan reject_demo) = Inr ()"
    and c7: "channel (snd (open_chan reject_demo)) = Some 0"
    and n7: "\<not> closed (store (snd (open_chan reject_demo)) 0)"
    and e7: "outcome ?fputfo = Some (Inl (SCPException []))"
    and o8: "fst (open_chan (baddir_demo\<lparr>files := [], depth := 0\<rparr>)) = Inr ()"
    and c8: "channel (snd (open_chan (baddir_demo\<lparr>files := [], depth := 0\<rparr>))) = Some 0"
    and n8: "\<not> closed (store (snd (open_chan (baddir_demo\<lparr>files := [], depth := 0\<rparr>))) 0)"
    and e8: "fst ?fget = Inl (SCPException ''Bad directory format'')"
    and a9: "fst (sendall [NUL] (report ''y'' 3 0 short_demo)) = Inr ()"
    and b9: "fst (recv_data ''y'' 3 ?u1) = Inl (SCPException ''Underlying channel was closed'')"
    and n9: "\<not> closed (store short_demo 0)"
    by code_simp+
  from o6 have o6': "open_chan (idle_demo\<lparr>preserve_times := False\<rparr>)
                      = (Inr (), snd (open_chan (idle_demo\<lparr>preserve_times := False\<rparr>)))"
    by (simp add: prod_eq_iff)
  from o7 have o7': "open_chan reject_demo = (Inr (), snd (open_chan reject_demo))"
    by (simp add: prod_eq_iff)
  from o8 have o8': "open_chan (baddir_demo\<lparr>files := [], depth := 0\<rparr>)
                      = (Inr (), snd (open_chan (baddir_demo\<lparr>files := [], depth := 0\<rparr>)))"
    by (simp add: prod_eq_iff)
  from e8 have e8': "?fget = (Inl (SCPException ''Bad directory format''), snd ?fget)"
    by (simp add: prod_eq_iff)
  from a9 have a9': "sendall [NUL] (if (3::int) = 0 then report ''y'' 1 1 short_demo
                       else report ''y'' 3 0 short_demo) = (Inr (), ?u1)"
    by (simp add: prod_eq_iff)
  from b9 have b9': "recv_data ''y'' 3 ?u1
      = (Inl (SCPException ''Underlying channel was closed''), snd (recv_data ''y'' 3 ?u1))"
    by (simp add: prod_eq_iff)
  from channel_closed_or_left_open
    [where s = idle_demo and p = False and rc = False and i = 0
       and ?s1.0 = "snd (open_chan (idle_demo\<lparr>preserve_times := False\<rparr>))"
       and fs = no_files and fls = "[]" and path = "PBytes ''.''" and s' = "final ?fput"
       and e = "SCPException ''No response from server''"]
    o6' c6 n6 returned [OF e6]
  have 6: "\<not> closed (store (final ?fput) 0)" "channel (final ?fput) = Some 0"
    by simp_all
  from channel_closed_or_left_open
    [where s = reject_demo and k = 0 and ?s3.0 = "snd (open_chan reject_demo)"
       and fl = "\<lparr>content = ''hello'', pos = 0\<rparr>" and path = "PStr ''f''" and mode = "''0644''"
       and sz = None and sf = "final ?fputfo" and e = "SCPException []"]
    o7' c7 n7 returned [OF e7]
  have 7: "\<not> closed (store (final ?fputfo) 0)" "channel (final ?fputfo) = Some 0"
    by simp_all
  from channel_closed_or_left_open
    [where s = baddir_demo and p = False and rc = True and j = 0
       and ?s2.0 = "snd (open_chan (baddir_demo\<lparr>files := [], depth := 0\<rparr>))"
       and paths = "[PStr ''a'']" and sg = "snd ?fget"
       and e = "SCPException ''Bad directory format''"]
    o8' c8 n8 e8'
  have 8: "\<not> closed (store (snd ?fget) 0)" "channel (snd ?fget) = Some 0"
    by auto
  from channel_closed_or_left_open
    [where s = short_demo and c = 0 and cmd = "''0644 3 y''" and rmode = 420 and rsz = 3
       and name = "''y''" and ?t1.0 = ?u1 and ?t2.0 = "snd (recv_data ''y'' 3 ?u1)"
       and e = "SCPException ''Underlying channel was closed''"]
    p5 a9' b9' n9
  have 9: "fst (recv_file ''0644 3 y'' short_demo)
             = Inl (SCPException ''Underlying channel was closed'')"
    "\<not> closed (store (snd (recv_file ''0644 3 y'' short_demo)) 0)"
    by simp_all
  from o1 c1 o2 c2 o3 c3 e1 e2 e3 c4 p4 p5 a5 b5 1 2 3 4 5 n6 e6 6 n7 e7 7 n8 e8 8 a9 b9 9
  show ?thesis by simp
qed

section \<open>The depth of the received directory tree\<close>

lemma recv_pushd_depth: "recv_pushd cmd s = (Inr u, s') \<Longrightarrow> depth s' = depth s + 1"
  by (cases "parse_dir cmd"; cases "sendall [SOH] s"; cases "fst (sendall [SOH] s)")
     (auto simp: recv_pushd_def Let_def)

lemma recv_pushd_depth_le: "recv_pushd cmd s = (r, s') \<Longrightarrow> depth s \<le> depth s'"
  by (cases "parse_dir cmd"; cases "sendall [SOH] s"; cases "fst (sendall [SOH] s)")
     (auto simp: recv_pushd_def Let_def frame_def dest!: sendall_frame)

lemma dispatch_depth:
  assumes "dispatch msg s = (r, s')" and "0 \<le> depth s"
  shows "0 \<le> depth s'"
  using assms(1)
proof (cases rule: dispatch_cases)
  case C
  then have "dirs s' = dirs s" by (rule recv_file_dirs)
  with assms(2) show ?thesis by (simp add: dirs_def)
next
  case T
  then have "dirs s' = dirs s" by (rule set_time_dirs)
  with assms(2) show ?thesis by (simp add: dirs_def)
next
  case D
  with assms(2) show ?thesis by (auto dest: recv_pushd_depth_le)
next
  case E
  with assms(2) show ?thesis by (simp add: recv_popd_def)
next
  case other
  with assms(2) show ?thesis by simp
qed

lemma recv_all_depth:
  assumes "recv_all s = (r, s')" and "0 \<le> depth s"
  shows "0 \<le> depth s'"
  by (rule recv_all_invariant [OF assms(1), where I = "\<lambda>t. 0 \<le> depth t"])
     (use assms(2) in \<open>auto dest!: sendall_frame recv_frame simp: frame_def dest: dispatch_depth\<close>)

lemma open_chan_depth: "open_chan s = (r, s') \<Longrightarrow> depth s' = depth s"
  by (auto simp: open_chan_def split: if_splits list.splits)

lemma exec_command_depth: "exec_command c s = (r, s') \<Longrightarrow> depth s' = depth s"
  by (auto simp: exec_command_def split: option.splits)

lemma close_depth [simp]: "depth (close s) = depth s"
  by (simp add: close_def split: option.splits)

lemma getfo_depth: "0 \<le> depth (snd (getfo paths rc pr s))"
proof -
  obtain q1 s1 where a: "open_chan (s\<lparr>files := [], depth := 0\<rparr>) = (q1, s1)"
    by (cases "open_chan (s\<lparr>files := [], depth := 0\<rparr>)")
  then have d1: "depth s1 = 0" by (auto dest: open_chan_depth)
  obtain q2 s2 where b: "exec_command (getfo_command s1 rc pr paths) (s1\<lparr>pushed := 0\<rparr>) = (q2, s2)"
    by (cases "exec_command (getfo_command s1 rc pr paths) (s1\<lparr>pushed := 0\<rparr>)")
  with d1 have d2: "depth s2 = 0" by (auto dest: exec_command_depth)
  obtain q3 s3 where c: "recv_all s2 = (q3, s3)" by (cases "recv_all s2")
  with d2 have d3: "0 \<le> depth s3" by (auto dest: recv_all_depth)
  from a b c d1 d2 d3 show ?thesis
    by (cases q1; cases q2; cases q3) (simp_all add: getfo_def)
qed

text \<open>
  Claim C7. On the receive side the depth never becomes negative: a \<open>D\<close> record that is
  accepted adds exactly 1; an \<open>E\<close> record at a depth above 0 subtracts exactly 1 and cuts
  the current directory back to its \<open>dirname\<close>, which undoes the push of a plain name; an
  \<open>E\<close> record at depth 0 raises nothing and changes nothing; and whatever the peer sends,
  the depth is at least 0 when the receive loop and when \<open>getfo\<close> end.
\<close>

theorem recv_depth_never_negative:
  "(recv_pushd cmd s = (Inr u, s') \<longrightarrow> depth s' = depth s + 1)
   \<and> (0 < depth s \<longrightarrow> depth (recv_popd s) = depth s - 1
                      \<and> recv_dir (recv_popd s) = dirname (recv_dir s))
   \<and> (name \<noteq> [] \<and> bytes_sep \<notin> set name
        \<and> (d = [] \<or> last d \<noteq> bytes_sep \<or> d = replicate (length d) bytes_sep)
        \<longrightarrow> dirname (path_join d name) = d)
   \<and> (depth s = 0 \<longrightarrow> dispatch ''E'' s = (Inr (), s))
   \<and> (0 \<le> depth s \<longrightarrow> recv_all s = (r, t) \<longrightarrow> 0 \<le> depth t)
   \<and> 0 \<le> depth (snd (getfo paths rc pr s))"
proof (intro conjI impI)
  show "recv_pushd cmd s = (Inr u, s') \<Longrightarrow> depth s' = depth s + 1"
    by (rule recv_pushd_depth)
  show "0 < depth s \<Longrightarrow> depth (recv_popd s) = depth s - 1" by (simp add: recv_popd_def)
  show "0 < depth s \<Longrightarrow> recv_dir (recv_popd s) = dirname (recv_dir s)"
    by (simp add: recv_popd_def)
  show "name \<noteq> [] \<and> bytes_sep \<notin> set name
        \<and> (d = [] \<or> last d \<noteq> bytes_sep \<or> d = replicate (length d) bytes_sep)
        \<Longrightarrow> dirname (path_join d name) = d"
    by (simp add: dirname_path_join)
  show "depth s = 0 \<Longrightarrow> dispatch ''E'' s = (Inr (), s)"
    by (simp add: dispatch_def recv_popd_def)
  show "0 \<le> depth s \<Longrightarrow> recv_all s = (r, t) \<Longrightarrow> 0 \<le> depth t"
    by (rule recv_all_depth)
  show "0 \<le> depth (snd (getfo paths rc pr s))" by (rule getfo_depth)
qed

definition depth_demo :: client where
  "depth_demo = (init_client [] 4 False)\<lparr>depth := 1, recv_dir := ''top/sub''\<rparr>"

theorem recv_depth_never_negative_witness:
  "fst (recv_pushd ''0755 0 sub'' (init_client [] 4 False)) = Inr ()
   \<and> depth (snd (recv_pushd ''0755 0 sub'' (init_client [] 4 False))) = 1
   \<and> 0 < depth depth_demo \<and> depth (recv_popd depth_demo) = 0
   \<and> recv_dir (recv_popd depth_demo) = ''top''
   \<and> dirname (path_join ''top'' ''sub'') = ''top''
   \<and> depth (init_client [] 4 False) = 0
   \<and> dispatch ''E'' (init_client [] 4 False) = (Inr (), init_client [] 4 False)
   \<and> 0 \<le> depth (snd (recv_all depth_demo))"
proof -
  let ?s0 = "init_client [] 4 False"
  have a': "fst (recv_pushd ''0755 0 sub'' ?s0) = Inr ()"
    by code_simp
  then have a: "recv_pushd ''0755 0 sub'' ?s0 = (Inr (), snd (recv_pushd ''0755 0 sub'' ?s0))"
    by (simp add: prod_eq_iff)
  have b: "0 < depth depth_demo" "depth ?s0 = 0" "0 \<le> depth depth_demo"
    by (simp_all add: depth_demo_def init_client_def)
  have c: "dirname (recv_dir depth_demo) = ''top''"
    unfolding depth_demo_def by simp code_simp
  have d: "''sub'' \<noteq> [] \<and> bytes_sep \<notin> set ''sub''
        \<and> (''top'' = [] \<or> last ''top'' \<noteq> bytes_sep \<or> ''top'' = replicate (length ''top'') bytes_sep)"
    by (simp add: bytes_sep_def)
  have e: "recv_all depth_demo = (fst (recv_all depth_demo), snd (recv_all depth_demo))"
    by simp
  from recv_depth_never_negative
    [of "''0755 0 sub''" ?s0 "()" "snd (recv_pushd ''0755 0 sub'' ?s0)" "''sub''" "''top''",
     THEN conjunct1] a
  have 1: "depth (snd (recv_pushd ''0755 0 sub'' ?s0)) = 1"
    by (simp add: init_client_def)
  from recv_depth_never_negative [of _ depth_demo _ _ "''sub''" "''top''"
      "fst (recv_all depth_demo)" "snd (recv_all depth_demo)"] a b c d e
  have 2: "depth (recv_popd depth_demo) = 0" "recv_dir (recv_popd depth_demo) = ''top''"
     "dirname (path_join ''top'' ''sub'') = ''top''" "0 \<le> depth (snd (recv_all depth_demo))"
    by (simp_all add: depth_demo_def init_client_def)
  from recv_depth_never_negative [of _ ?s0] b
  have 3: "dispatch ''E'' ?s0 = (Inr (), ?s0)" by simp
  from a' b 1 2 3 show ?thesis by simp
qed

section \<open>The pending timestamp\<close>

lemma set_time_utime:
  assumes "set_time cmd s = (Inr u, s')"
  shows "\<exists>t. parse_time cmd = Some t \<and> utime s' = Some t"
  using assms
  by (cases "parse_time cmd"; cases "sendall [SOH] s"; cases "fst (sendall [SOH] s)")
     (auto simp: set_time_def)

lemma recv_file_utime:
  assumes "recv_file cmd s = (Inr u, s')"
  shows "utime s' = None \<and> (\<exists>f. files s' = files s @ [f] \<and> r_utime f = utime s)"
proof -
  from assms obtain mode sz name s1 data s2 where
    a: "sendall [NUL] (if sz = 0 then report name 1 1 s else report name sz 0 s) = (Inr (), s1)"
    and b: "recv_data name sz s1 = (Inr data, s2)"
    and d: "s' = s2\<lparr>files := files s2 @
                 [\<lparr>r_path = path_join (recv_dir s) name, r_name = name, r_utime = utime s2,
                   r_data = data, r_mode = mode\<rparr>], utime := None\<rparr>"
    by (rule recv_file_ok)
  from a have "frame s1 = frame s" by (auto dest!: sendall_frame split: if_splits)
  moreover from b have "frame s2 = frame s1" by (rule recv_data_frame)
  ultimately have "utime s2 = utime s" and "files s2 = files s" by (simp_all add: frame_def)
  with d show ?thesis by simp
qed

lemma recv_pushd_utime:
  assumes "recv_pushd cmd s = (Inr u, s')"
  shows "utime s' = None \<and> (\<exists>mode name. parse_dir cmd = Some (mode, name)
            \<and> dirtimes s' (path_join (recv_dir s) name) = Some (mode, utime s))"
  using assms
  by (cases "parse_dir cmd"; cases "sendall [SOH] s"; cases "fst (sendall [SOH] s)")
     (auto simp: recv_pushd_def Let_def)

text \<open>
  Claim C9. The receive side holds at most one pending timestamp (\<open>utime\<close> is one optional
  pair). A \<open>T\<close> record that parses sets it to the record's times whatever it held before,
  so the last one wins; a \<open>C\<close> record that is received hands it to the file it produces
  and clears it; a \<open>D\<close> record that is accepted stores it with the directory's mode under
  the new path and clears it.
\<close>

theorem pending_timestamp_consumed:
  "(set_time cmd s = (Inr u, s') \<longrightarrow> (\<exists>t. parse_time cmd = Some t \<and> utime s' = Some t))
   \<and> (recv_file cmd s = (Inr u, s') \<longrightarrow>
         utime s' = None \<and> (\<exists>f. files s' = files s @ [f] \<and> r_utime f = utime s))
   \<and> (recv_pushd cmd s = (Inr u, s') \<longrightarrow>
         utime s' = None \<and> (\<exists>mode name. parse_dir cmd = Some (mode, name)
            \<and> dirtimes s' (path_join (recv_dir s) name) = Some (mode, utime s)))"
  using set_time_utime recv_file_utime recv_pushd_utime by blast

definition stamp_demo :: client where
  "stamp_demo = (init_client [] 4 False)
     \<lparr>channel := Some 0, store := (\<lambda>_. new_channel [Chunk ''abc'', Chunk [NUL]]),
      utime := Some (7, 8)\<rparr>"

theorem pending_timestamp_consumed_witness:
  "fst (set_time ''1000 0 2000 0'' stamp_demo) = Inr ()
   \<and> utime (snd (set_time ''1000 0 2000 0'' stamp_demo)) = Some (2000, 1000)
   \<and> fst (recv_file ''0644 3 x'' stamp_demo) = Inr ()
   \<and> utime (snd (recv_file ''0644 3 x'' stamp_demo)) = None
   \<and> map r_utime (files (snd (recv_file ''0644 3 x'' stamp_demo))) = [Some (7, 8)]
   \<and> fst (recv_pushd ''0755 0 sub'' stamp_demo) = Inr ()
   \<and> utime (snd (recv_pushd ''0755 0 sub'' stamp_demo)) = None
   \<and> dirtimes (snd (recv_pushd ''0755 0 sub'' stamp_demo)) ''sub'' = Some (493, Some (7, 8))"
proof -
  have t: "fst (set_time ''1000 0 2000 0'' stamp_demo) = Inr ()"
    and c: "fst (recv_file ''0644 3 x'' stamp_demo) = Inr ()"
    and d: "fst (recv_pushd ''0755 0 sub'' stamp_demo) = Inr ()"
    and pt: "parse_time ''1000 0 2000 0'' = Some (2000, 1000)"
    and pd: "parse_dir ''0755 0 sub'' = Some (493, ''sub'')"
    by code_simp+
  have s: "utime stamp_demo = Some (7, 8)" "files stamp_demo = []" "recv_dir stamp_demo = []"
    by (simp_all add: stamp_demo_def init_client_def)
  have j: "path_join [] ''sub'' = ''sub''" by (simp add: path_join_def bytes_sep_def)
  from t have t': "set_time ''1000 0 2000 0'' stamp_demo
                     = (Inr (), snd (set_time ''1000 0 2000 0'' stamp_demo))"
    by (simp add: prod_eq_iff)
  from c have c': "recv_file ''0644 3 x'' stamp_demo
                     = (Inr (), snd (recv_file ''0644 3 x'' stamp_demo))"
    by (simp add: prod_eq_iff)
  from d have d': "recv_pushd ''0755 0 sub'' stamp_demo
                     = (Inr (), snd (recv_pushd ''0755 0 sub'' stamp_demo))"
    by (simp add: prod_eq_iff)
  from pending_timestamp_consumed [of "''1000 0 2000 0''" stamp_demo "()"
      "snd (set_time ''1000 0 2000 0'' stamp_demo)"] t' pt
  have 1: "utime (snd (set_time ''1000 0 2000 0'' stamp_demo)) = Some (2000, 1000)"
    by auto
  from pending_timestamp_consumed [of "''0644 3 x''" stamp_demo "()"
      "snd (recv_file ''0644 3 x'' stamp_demo)"] c' s
  have 2: "utime (snd (recv_file ''0644 3 x'' stamp_demo)) = None"
     "map r_utime (files (snd (recv_file ''0644 3 x'' stamp_demo))) = [Some (7, 8)]"
    by auto
  from pending_timestamp_consumed [of "''0755 0 sub''" stamp_demo "()"
      "snd (recv_pushd ''0755 0 sub'' stamp_demo)"] d' pd s j
  have 3: "utime (snd (recv_pushd ''0755 0 sub'' stamp_demo)) = None"
     "dirtimes (snd (recv_pushd ''0755 0 sub'' stamp_demo)) ''sub'' = Some (493, Some (7, 8))"
    by auto
  from t c d 1 2 3 show ?thesis by simp
qed

section \<open>The body of a received file\<close>

text \<open>The bytes the peer has delivered on the current channel and the client has not read.\<close>

definition flat :: "event list \<Rightarrow> bytes" where
  "flat es = concat (map (\<lambda>e. case e of Chunk b \<Rightarrow> b | Timeout \<Rightarrow> []) es)"

definition unread :: "client \<Rightarrow> bytes" where
  "unread s = (case channel s of None \<Rightarrow> [] | Some i \<Rightarrow> flat (incoming (store s i)))"

lemma chan_recv_flat:
  assumes "chan_recv n c = (r, c')"
  shows "\<exists>b. flat (incoming c) = b @ flat (incoming c') \<and> length b \<le> n
              \<and> (case r of Inl e \<Rightarrow> b = [] | Inr d \<Rightarrow> d = b)"
  using assms
  by (auto simp: chan_recv_def flat_def split: list.splits event.splits if_splits)

lemma recv_unread:
  assumes "recv n s = (r, s')"
  shows "\<exists>b. unread s = b @ unread s' \<and> length b \<le> n
              \<and> (case r of Inl e \<Rightarrow> b = [] | Inr d \<Rightarrow> d = b)"
proof (cases "channel s")
  case None
  with assms show ?thesis by (auto simp: recv_def)
next
  case (Some i)
  obtain q c where c: "chan_recv n (store s i) = (q, c)" by (cases "chan_recv n (store s i)")
  with assms Some have "r = q" and "s' = s\<lparr>store := (store s)(i := c)\<rparr>"
    by (auto simp: recv_def)
  with Some chan_recv_flat [OF c] show ?thesis by (simp add: unread_def)
qed

lemma unread_report [simp]: "unread (report name t p s) = unread s"
  by (simp add: report_def unread_def split: option.splits)

lemma sendall_unread: "sendall d s = (r, s') \<Longrightarrow> unread s' = unread s"
  by (auto simp: sendall_def unread_def split: option.splits)

lemma recv_body_unread:
  assumes "recv_body name sz buff acc s = (r, s')" and "int (length acc) \<le> sz"
  shows "\<exists>new. unread s = new @ unread s' \<and> int (length acc + length new) \<le> sz
           \<and> (\<forall>data. r = Inr data \<longrightarrow> data = acc @ new \<and> int (length data) = sz)"
  using assms
proof (induction name sz buff acc s rule: recv_body.induct)
  case (1 name sz buff acc s)
  show ?case
  proof (cases "int (length acc) < sz")
    case False
    with "1.prems" show ?thesis by (auto simp: recv_body.simps [of name sz buff acc s])
  next
    case True
    define buff1 where "buff1 = (if sz - int (length acc) \<le> int buff
                                 then nat (sz - int (length acc)) else buff)"
    with True have cap: "int buff1 \<le> sz - int (length acc)" by auto
    obtain q s1 where rc: "recv buff1 s = (q, s1)" by (cases "recv buff1 s")
    from recv_unread [OF rc] obtain b where
      b: "unread s = b @ unread s1" "length b \<le> buff1" "case q of Inl e \<Rightarrow> b = [] | Inr d \<Rightarrow> d = b"
      by blast
    show ?thesis
    proof (cases q)
      case (Inl e)
      with b have "b = []" by simp
      with Inl True rc "1.prems" b(1) show ?thesis
        by (auto simp: recv_body.simps [of name sz buff acc s] buff1_def [symmetric])
    next
      case (Inr data)
      with b have db: "data = b" by simp
      show ?thesis
      proof (cases "data = []")
        case True
        with \<open>int (length acc) < sz\<close> Inr rc "1.prems" b(1) db show ?thesis
          by (auto simp: recv_body.simps [of name sz buff acc s] buff1_def [symmetric])
      next
        case False
        with True Inr rc "1.prems"
        have run: "recv_body name sz buff1 (acc @ data)
                (report name sz (int (length (acc @ data))) s1) = (r, s')"
          by (simp add: recv_body.simps [of name sz buff acc s] buff1_def [symmetric])
        from cap b db have le: "int (length (acc @ data)) \<le> sz" by simp
        from "1.IH" [OF True buff1_def rc [symmetric] Inr False run le]
        obtain new where new: "unread s1 = new @ unread s'"
          "int (length (acc @ data) + length new) \<le> sz"
          "\<forall>d. r = Inr d \<longrightarrow> d = (acc @ data) @ new \<and> int (length d) = sz"
          by auto
        with b db show ?thesis
          by (intro exI [of _ "data @ new"]) simp
      qed
    qed
  qed
qed

lemma recv_data_unread:
  assumes "recv_data name sz s = (Inr data, s')" and "0 \<le> sz"
  shows "int (length data) = sz \<and> (\<exists>status. unread s = data @ status @ unread s'
           \<and> length status \<le> 512 \<and> (status = [] \<or> take 1 status = [NUL]))"
proof -
  from assms(1) obtain s1 msg where
    a: "recv_body name sz (buff_size s) [] s = (Inr data, s1)"
    and b: "recv 512 s1 = (Inr msg, s')" and c: "\<not> (msg \<noteq> [] \<and> take 1 msg \<noteq> [NUL])"
    by (auto simp: recv_data_def split: prod.splits sum.splits if_splits)
  from recv_body_unread [OF a] assms(2)
  have "unread s = data @ unread s1" and "int (length data) = sz" by auto
  moreover from recv_unread [OF b] have "unread s1 = msg @ unread s'" and "length msg \<le> 512"
    by auto
  ultimately show ?thesis using c by auto
qed

text \<open>The loop completes when the peer delivers enough bytes, in chunks of any sizes.\<close>

lemma recv_body_completes:
  assumes "channel s = Some i" and "incoming (store s i) = map Chunk cs @ rest"
    and "\<forall>c \<in> set cs. c \<noteq> []" and "int (length acc) \<le> sz"
    and "sz \<le> int (length acc + length (concat cs))" and "0 < buff"
  shows "fst (recv_body name sz buff acc s) = Inr (take (nat sz) (acc @ concat cs))"
  using assms
proof (induction name sz buff acc s arbitrary: cs rule: recv_body.induct)
  case (1 name sz buff acc s)
  show ?case
  proof (cases "int (length acc) < sz")
    case False
    with "1.prems" show ?thesis by (simp add: recv_body.simps [of name sz buff acc s])
  next
    case True
    define buff1 where "buff1 = (if sz - int (length acc) \<le> int buff
                                 then nat (sz - int (length acc)) else buff)"
    with True "1.prems" have pos: "0 < buff1" and cap: "int buff1 \<le> sz - int (length acc)"
      by auto
    from True "1.prems" obtain c cs' where cs: "cs = c # cs'" and c: "c \<noteq> []"
      by (cases cs) auto
    define data where "data = (if length c \<le> buff1 then c else take buff1 c)"
    define cs1 where "cs1 = (if length c \<le> buff1 then cs' else drop buff1 c # cs')"
    define s1 where "s1 = s\<lparr>store := (store s)(i := (store s i)\<lparr>incoming := map Chunk cs1 @ rest\<rparr>)\<rparr>"
    from "1.prems" cs have rc: "recv buff1 s = (Inr data, s1)"
      by (simp add: recv_def chan_recv_def data_def cs1_def s1_def)
    from c pos have ne: "data \<noteq> []" by (auto simp: data_def)
    have cat: "data @ concat cs1 = concat cs"
      by (simp add: data_def cs1_def cs)
    define s2 where "s2 = report name sz (int (length (acc @ data))) s1"
    have ch: "channel s2 = Some i" and inc: "incoming (store s2 i) = map Chunk cs1 @ rest"
      using "1.prems"(1) by (simp_all add: s2_def s1_def report_def)
    have all: "\<forall>c \<in> set cs1. c \<noteq> []"
      using "1.prems"(3) cs by (auto simp: cs1_def)
    from cap have le: "int (length (acc @ data)) \<le> sz"
      by (auto simp: data_def)
    from "1.prems"(5) cat have tot: "sz \<le> int (length (acc @ data) + length (concat cs1))"
      by (metis append.assoc length_append)
    from True rc ne have "recv_body name sz buff acc s = recv_body name sz buff1 (acc @ data) s2"
      by (simp add: recv_body.simps [of name sz buff acc s] buff1_def [symmetric] s2_def)
    moreover from "1.IH" [OF True buff1_def rc [symmetric] refl ne, folded s2_def, OF ch inc all le tot pos]
    have "fst (recv_body name sz buff1 (acc @ data) s2)
            = Inr (take (nat sz) ((acc @ data) @ concat cs1))" .
    ultimately show ?thesis using cat by simp
  qed
qed

text \<open>
  Claim C10. While the body of a file of declared size \<open>N\<close> is received, no read asks for
  more than \<open>N\<close> minus what has been received, so that the loop never takes more than \<open>N\<close>
  bytes from the peer, however it ends; when it completes it has taken exactly the first
  \<open>N\<close> bytes that the peer delivered, and they are the data of the file that \<open>_recv_file\<close>
  appends: what follows them, the status, is read after the body and is not part of it.
  The loop does complete when the peer delivers at least \<open>N\<close> bytes, in non-empty chunks
  of any sizes, and the buffer size is not 0.
\<close>

theorem recv_body_takes_declared_size:
  "(0 \<le> sz \<longrightarrow> recv_body name sz buff [] s = (r, s1) \<longrightarrow>
      (\<exists>new. unread s = new @ unread s1 \<and> int (length new) \<le> sz
         \<and> (\<forall>data. r = Inr data \<longrightarrow> data = new \<and> int (length data) = sz)))
   \<and> (0 \<le> sz \<longrightarrow> parse_file cmd = Some (mode, sz, name) \<longrightarrow> recv_file cmd s = (Inr u, s') \<longrightarrow>
      (\<exists>f status. files s' = files s @ [f] \<and> int (length (r_data f)) = sz
         \<and> unread s = r_data f @ status @ unread s'
         \<and> (status = [] \<or> take 1 status = [NUL])))
   \<and> (channel s = Some i \<and> incoming (store s i) = map Chunk cs @ rest
        \<and> (\<forall>c \<in> set cs. c \<noteq> []) \<and> 0 \<le> sz \<and> sz \<le> int (length (concat cs)) \<and> 0 < buff
      \<longrightarrow> fst (recv_body name sz buff [] s) = Inr (take (nat sz) (concat cs)))"
proof (intro conjI impI)
  assume "channel s = Some i \<and> incoming (store s i) = map Chunk cs @ rest
        \<and> (\<forall>c \<in> set cs. c \<noteq> []) \<and> 0 \<le> sz \<and> sz \<le> int (length (concat cs)) \<and> 0 < buff"
  with recv_body_completes [of s i cs rest "[]" sz buff name]
  show "fst (recv_body name sz buff [] s) = Inr (take (nat sz) (concat cs))" by simp
next
  assume "0 \<le> sz" and "recv_body name sz buff [] s = (r, s1)"
  with recv_body_unread [of name sz buff "[]" s r s1]
  show "\<exists>new. unread s = new @ unread s1 \<and> int (length new) \<le> sz
         \<and> (\<forall>data. r = Inr data \<longrightarrow> data = new \<and> int (length data) = sz)"
    by simp
next
  assume sz: "0 \<le> sz" and p: "parse_file cmd = Some (mode, sz, name)"
    and run: "recv_file cmd s = (Inr u, s')"
  from run p obtain s1 data s2 where
    a: "sendall [NUL] (if sz = 0 then report name 1 1 s else report name sz 0 s) = (Inr (), s1)"
    and b: "recv_data name sz s1 = (Inr data, s2)"
    and d: "s' = s2\<lparr>files := files s2 @
                 [\<lparr>r_path = path_join (recv_dir s) name, r_name = name, r_utime = utime s2,
                   r_data = data, r_mode = mode\<rparr>], utime := None\<rparr>"
    by (auto elim!: recv_file_ok)
  from a have u1: "unread s1 = unread s"
    by (auto dest!: sendall_unread split: if_splits)
  from a have f1: "frame s1 = frame s"
    by (auto dest!: sendall_frame split: if_splits)
  from b have f2: "frame s2 = frame s1" by (rule recv_data_frame)
  from recv_data_unread [OF b sz] obtain status where
    st: "int (length data) = sz" "unread s1 = data @ status @ unread s2"
        "status = [] \<or> take 1 status = [NUL]"
    by blast
  from d have u2: "unread s' = unread s2" by (simp add: unread_def split: option.splits)
  from f1 f2 have "files s2 = files s" by (simp add: frame_def)
  with d st u1 u2 show "\<exists>f status. files s' = files s @ [f] \<and> int (length (r_data f)) = sz
         \<and> unread s = r_data f @ status @ unread s'
         \<and> (status = [] \<or> take 1 status = [NUL])"
    by (intro exI [of _ "\<lparr>r_path = path_join (recv_dir s) name, r_name = name,
          r_utime = utime s2, r_data = data, r_mode = mode\<rparr>"] exI [of _ status]) simp
qed


definition body_demo :: client where
  "body_demo = (init_client [] 2 False)
     \<lparr>channel := Some 0,
      store := (\<lambda>_. new_channel [Chunk ''ab'', Chunk (''c'' @ [NUL]), Chunk (''E'' @ [NL])])\<rparr>"

theorem recv_body_takes_declared_size_witness:
  "(0::int) \<le> 3
   \<and> fst (recv_body ''x'' 3 2 [] body_demo) = Inr ''abc''
   \<and> unread body_demo = ''abc'' @ unread (snd (recv_body ''x'' 3 2 [] body_demo))
   \<and> parse_file ''0644 3 x'' = Some (420, 3, ''x'')
   \<and> fst (recv_file ''0644 3 x'' body_demo) = Inr ()
   \<and> map r_data (files (snd (recv_file ''0644 3 x'' body_demo))) = [''abc'']
   \<and> unread (snd (recv_file ''0644 3 x'' body_demo)) = ''E'' @ [NL]"
proof -
  have b: "fst (recv_body ''x'' 3 2 [] body_demo) = Inr ''abc''"
    and p: "parse_file ''0644 3 x'' = Some (420, 3, ''x'')"
    and f: "fst (recv_file ''0644 3 x'' body_demo) = Inr ()"
    and u: "unread (snd (recv_file ''0644 3 x'' body_demo)) = ''E'' @ [NL]"
    by code_simp+
  have i: "files body_demo = []" "unread body_demo = ''abc'' @ [NUL] @ ''E'' @ [NL]"
    by (simp_all add: body_demo_def init_client_def unread_def flat_def new_channel_def)
  from b have b': "recv_body ''x'' 3 2 [] body_demo
                    = (Inr ''abc'', snd (recv_body ''x'' 3 2 [] body_demo))"
    by (simp add: prod_eq_iff)
  from f have f': "recv_file ''0644 3 x'' body_demo
                    = (Inr (), snd (recv_file ''0644 3 x'' body_demo))"
    by (simp add: prod_eq_iff)
  have h: "channel body_demo = Some 0 \<and> incoming (store body_demo 0)
             = map Chunk [''ab'', ''c'' @ [NUL], ''E'' @ [NL]] @ []
           \<and> (\<forall>c \<in> set [''ab'', ''c'' @ [NUL], ''E'' @ [NL]]. c \<noteq> [])
           \<and> (0::int) \<le> 3 \<and> 3 \<le> int (length (concat [''ab'', ''c'' @ [NUL], ''E'' @ [NL]]))
           \<and> (0::nat) < 2"
    by (simp add: body_demo_def init_client_def new_channel_def)
  note inst = recv_body_takes_declared_size
    [where sz = 3 and name = "''x''" and buff = 2 and s = body_demo and r = "Inr ''abc''"
       and ?s1.0 = "snd (recv_body ''x'' 3 2 [] body_demo)" and cmd = "''0644 3 x''"
       and mode = 420 and u = "()" and s' = "snd (recv_file ''0644 3 x'' body_demo)"
       and i = 0 and cs = "[''ab'', ''c'' @ [NUL], ''E'' @ [NL]]" and rest = "[]"]
  from inst h have 0: "fst (recv_body ''x'' 3 2 [] body_demo) = Inr (take 3 (''abc'' @ [NUL] @ ''E'' @ [NL]))"
    by simp
  from inst b' have 1: "unread body_demo = ''abc'' @ unread (snd (recv_body ''x'' 3 2 [] body_demo))"
    by auto
  from inst f' p i(1) obtain g status where
    g: "files (snd (recv_file ''0644 3 x'' body_demo)) = [g]" "length (r_data g) = 3"
       "unread body_demo = r_data g @ status @ unread (snd (recv_file ''0644 3 x'' body_demo))"
    by auto
  from g(3) have "take 3 (unread body_demo) = take 3 (r_data g @ status
      @ unread (snd (recv_file ''0644 3 x'' body_demo)))" by simp
  with g(2) i(2) have "r_data g = ''abc''" by simp
  with g(1) have 2: "map r_data (files (snd (recv_file ''0644 3 x'' body_demo))) = [''abc'']"
    by simp
  from 0 b p f u 1 2 show ?thesis by simp
qed

section \<open>Progress reports\<close>

text \<open>The position after each of a sequence of chunks, starting from position \<open>p\<close>.\<close>

fun running :: "nat \<Rightarrow> bytes list \<Rightarrow> nat list" where
  "running p [] = []"
| "running p (c # cs) = (p + length c) # running (p + length c) cs"

lemma running_append:
  "running p (cs @ ds) = running p cs @ running (p + length (concat cs)) ds"
  by (induction cs arbitrary: p) (simp_all add: add.assoc)

lemma recv_calls: "recv n s = (r, s') \<Longrightarrow> calls s' = calls s"
  by (auto simp: recv_def split: option.splits prod.splits)

lemma sendall_calls: "sendall d s = (r, s') \<Longrightarrow> calls s' = calls s"
  by (auto simp: sendall_def split: option.splits)

lemma sendall_fails: "sendall d s = (Inl e, s') \<Longrightarrow> s' = s"
  by (auto simp: sendall_def split: option.splits)

lemma recv_confirm_calls: "recv_confirm s = (r, s') \<Longrightarrow> calls s' = calls s"
  by (auto simp: recv_confirm_def split: prod.splits sum.splits if_splits option.splits
           dest!: recv_calls)

lemma chan_close_calls: "chan_close s = (r, s') \<Longrightarrow> calls s' = calls s"
  by (auto simp: chan_close_def split: option.splits)

lemma report_calls:
  "calls (report name t p s) = (if progress s then calls s @ [(name, t, p)] else calls s)"
  by (simp add: report_def)

lemma report_sent [simp]: "cur_sent (report name t p s) = cur_sent s"
  by (simp add: report_def cur_sent_def split: option.splits)

lemma report_progress [simp]: "progress (report name t p s) = progress s"
  by (simp add: report_def)

lemma frame_progress: "frame s' = frame s \<Longrightarrow> progress s' = progress s"
  by (simp add: frame_def wire_def)

subsection \<open>Sending\<close>

lemma send_body_calls:
  assumes "send_body bn sz fl fp s = Some q"
  shows "\<exists>chunks. cur_sent (snd q) = cur_sent s @ chunks
           \<and> calls (snd q) = calls s @ (if progress s
                then map (\<lambda>p. (bn, sz, int p)) (running (pos fl) chunks) else [])"
proof (rule send_body.raw_induct
    [where P = "\<lambda>bn sz fl fp s q. \<exists>chunks. cur_sent (snd q) = cur_sent s @ chunks
           \<and> calls (snd q) = calls s @ (if progress s
                then map (\<lambda>p. (bn, sz, int p)) (running (pos fl) chunks) else [])", OF _ assms])
  fix f bn sz fl fp s q
  assume IH: "\<And>bn sz fl fp s q. f bn sz fl fp s = Some q \<Longrightarrow>
      \<exists>chunks. cur_sent (snd q) = cur_sent s @ chunks
           \<and> calls (snd q) = calls s @ (if progress s
                then map (\<lambda>p. (bn, sz, int p)) (running (pos fl) chunks) else [])"
    and eq: "(if fp < sz
      then (let data = take (buff_size s) (drop (pos fl) (content fl));
                fl1 = fl\<lparr>pos := pos fl + length data\<rparr>
            in case sendall data s of
                 (Inl e, s1) \<Rightarrow> Some (Inl e, s1)
               | (Inr _, s1) \<Rightarrow>
                   f bn sz fl1 (int (pos fl1)) (report bn sz (int (pos fl1)) s1))
      else Some (Inr (), s)) = Some q"
  show "\<exists>chunks. cur_sent (snd q) = cur_sent s @ chunks
           \<and> calls (snd q) = calls s @ (if progress s
                then map (\<lambda>p. (bn, sz, int p)) (running (pos fl) chunks) else [])"
  proof (cases "fp < sz")
    case False
    with eq have "snd q = s" by auto
    then show ?thesis by (intro exI [of _ "[]"]) simp
  next
    case True
    define data where "data = take (buff_size s) (drop (pos fl) (content fl))"
    obtain r s1 where sa: "sendall data s = (r, s1)" by (cases "sendall data s")
    show ?thesis
    proof (cases r)
      case (Inl e)
      with sa have "s1 = s" by (auto dest: sendall_fails)
      with Inl eq True sa have "snd q = s" by (auto simp: Let_def data_def [symmetric])
      then show ?thesis by (intro exI [of _ "[]"]) simp
    next
      case (Inr u)
      define s2 where "s2 = report bn sz (int (pos fl + length data)) s1"
      from Inr sa have c1: "cur_sent s1 = cur_sent s @ [data]" and k1: "calls s1 = calls s"
        and p1: "progress s1 = progress s"
        by (auto dest: sendall_sent sendall_calls sendall_frame [THEN frame_progress])
      from Inr eq True sa have "f bn sz (fl\<lparr>pos := pos fl + length data\<rparr>)
              (int (pos fl + length data)) s2 = Some q"
        by (simp add: Let_def data_def [symmetric] s2_def)
      from IH [OF this] obtain chunks where
        ch: "cur_sent (snd q) = cur_sent s2 @ chunks"
            "calls (snd q) = calls s2 @ (if progress s2
                then map (\<lambda>p. (bn, sz, int p)) (running (pos fl + length data) chunks) else [])"
        by auto
      with c1 k1 p1 show ?thesis
        by (intro exI [of _ "data # chunks"]) (simp add: s2_def report_calls)
    qed
  qed
qed


lemma send_body_done: "\<not> fp < sz \<Longrightarrow> send_body bn sz fl fp s = Some (Inr (), s)"
  by (simp add: send_body.simps)

lemma send_file_ok:
  assumes "send_file fl (PStr n) mode sz s = Some (Inr u, s')"
  obtains s1 s2 s3 s4 where
    "encode_ascii (file_line mode sz (quote_nl (basename n)))
       = Some (file_line mode sz (quote_nl (basename n)))"
    "sendall (file_line mode sz (quote_nl (basename n))) s = (Inr (), s1)"
    "recv_confirm s1 = (Inr (), s2)"
    "send_body (quote_nl (basename n)) sz fl 0
       (if sz = 0 then report (quote_nl (basename n)) 1 1 s2
        else report (quote_nl (basename n)) sz 0 s2) = Some (Inr (), s3)"
    "sendall [NUL] s3 = (Inr (), s4)"
    "recv_confirm s4 = (Inr (), s')"
proof -
  define bn where "bn = quote_nl (basename n)"
  define line where "line = file_line mode sz bn"
  from assms have e: "encode_ascii line = Some line"
    by (auto simp: send_file_def Let_def bn_def line_def encode_ascii_def split: if_splits)
  obtain q1 s1 where a: "sendall line s = (q1, s1)" by (cases "sendall line s")
  from assms e a have q1: "q1 = Inr ()"
    by (cases q1) (simp_all add: send_file_def Let_def bn_def [symmetric] line_def [symmetric])
  obtain q2 s2 where b: "recv_confirm s1 = (q2, s2)" by (cases "recv_confirm s1")
  from assms e a q1 b have q2: "q2 = Inr ()"
    by (cases q2) (simp_all add: send_file_def Let_def bn_def [symmetric] line_def [symmetric])
  define s2' where "s2' = (if sz = 0 then report bn 1 1 s2 else report bn sz 0 s2)"
  from assms e a q1 b q2 obtain q3 s3 where c: "send_body bn sz fl 0 s2' = Some (q3, s3)"
    by (cases "send_body bn sz fl 0 s2'")
       (auto simp: send_file_def Let_def bn_def [symmetric] line_def [symmetric] s2'_def [symmetric])
  from assms e a q1 b q2 c have q3: "q3 = Inr ()"
    by (cases q3)
       (simp_all add: send_file_def Let_def bn_def [symmetric] line_def [symmetric] s2'_def [symmetric])
  obtain q4 s4 where d: "sendall [NUL] s3 = (q4, s4)" by (cases "sendall [NUL] s3")
  from assms e a q1 b q2 c q3 d have q4: "q4 = Inr ()"
    by (cases q4)
       (simp_all add: send_file_def Let_def bn_def [symmetric] line_def [symmetric] s2'_def [symmetric])
  from assms e a q1 b q2 c q3 d q4 have f: "recv_confirm s4 = (Inr (), s')"
    by (simp add: send_file_def Let_def bn_def [symmetric] line_def [symmetric] s2'_def [symmetric])
  from that e a q1 b q2 c q3 d q4 f show thesis
    unfolding bn_def line_def s2'_def by blast
qed

lemma send_file_progress:
  assumes run: "send_file fl (PStr n) mode sz s = Some (Inr u, s')" and pr: "progress s"
  shows "\<exists>chunks.
           cur_sent s' = cur_sent s @ [file_line mode sz (quote_nl (basename n))] @ chunks @ [[NUL]]
         \<and> calls s' = calls s
             @ (if sz = 0 then (quote_nl (basename n), 1, 1) else (quote_nl (basename n), sz, 0))
             # map (\<lambda>p. (quote_nl (basename n), sz, int p)) (running (pos fl) chunks)
         \<and> (sz = 0 \<longrightarrow> chunks = [])"
proof -
  define bn where "bn = quote_nl (basename n)"
  define s2' where "s2' = (\<lambda>s2. if sz = 0 then report bn 1 1 s2 else report bn sz 0 s2)"
  from run obtain s1 s2 s3 s4 where
    a: "sendall (file_line mode sz bn) s = (Inr (), s1)"
    and b: "recv_confirm s1 = (Inr (), s2)"
    and c: "send_body bn sz fl 0 (s2' s2) = Some (Inr (), s3)"
    and d: "sendall [NUL] s3 = (Inr (), s4)"
    and e: "recv_confirm s4 = (Inr (), s')"
    unfolding bn_def s2'_def by (rule send_file_ok)
  from a have 1: "cur_sent s1 = cur_sent s @ [file_line mode sz bn]" "calls s1 = calls s"
    "progress s1 = progress s"
    by (auto dest: sendall_sent sendall_calls sendall_frame [THEN frame_progress])
  from b have 2: "cur_sent s2 = cur_sent s1" "calls s2 = calls s1" "progress s2 = progress s1"
    by (auto dest: recv_confirm_sent recv_confirm_calls recv_confirm_frame [THEN frame_progress])
  from 1 2 pr have r2: "cur_sent (s2' s2) = cur_sent s2" "progress (s2' s2)"
    "calls (s2' s2) = calls s2 @ [if sz = 0 then (bn, 1, 1) else (bn, sz, 0)]"
    by (simp_all add: s2'_def report_calls)
  from send_body_calls [OF c] r2 obtain chunks where
    3: "cur_sent s3 = cur_sent (s2' s2) @ chunks"
       "calls s3 = calls (s2' s2) @ map (\<lambda>p. (bn, sz, int p)) (running (pos fl) chunks)"
    by auto
  have z: "sz = 0 \<longrightarrow> chunks = []"
  proof
    assume "sz = 0"
    then have "send_body bn sz fl 0 (s2' s2) = Some (Inr (), s2' s2)"
      by (simp add: send_body_done)
    with c have "s3 = s2' s2" by simp
    with 3 show "chunks = []" by simp
  qed
  from d have 4: "cur_sent s4 = cur_sent s3 @ [[NUL]]" "calls s4 = calls s3"
    by (auto dest: sendall_sent sendall_calls)
  from e have 5: "cur_sent s' = cur_sent s4" "calls s' = calls s4"
    by (auto dest: recv_confirm_sent recv_confirm_calls)
  from 1 2 r2 3 4 5 z show ?thesis
    unfolding bn_def [symmetric] by (intro exI [of _ chunks]) simp
qed


subsection \<open>Receiving\<close>

lemma recv_body_calls:
  assumes "recv_body name sz buff acc s = (r, s')"
  shows "\<exists>chunks. (\<forall>c \<in> set chunks. c \<noteq> [])
           \<and> calls s' = calls s @ (if progress s
                then map (\<lambda>p. (name, sz, int p)) (running (length acc) chunks) else [])
           \<and> (\<forall>data. r = Inr data \<longrightarrow> data = acc @ concat chunks)
           \<and> (\<not> int (length acc) < sz \<longrightarrow> chunks = [])"
  using assms
proof (induction name sz buff acc s rule: recv_body.induct)
  case (1 name sz buff acc s)
  show ?case
  proof (cases "int (length acc) < sz")
    case False
    with "1.prems" have "r = Inr acc" "s' = s"
      by (simp_all add: recv_body.simps [of name sz buff acc s])
    then show ?thesis by (intro exI [of _ "[]"]) simp
  next
    case True
    define buff1 where "buff1 = (if sz - int (length acc) \<le> int buff
                                 then nat (sz - int (length acc)) else buff)"
    obtain q s1 where rc: "recv buff1 s = (q, s1)" by (cases "recv buff1 s")
    then have k1: "calls s1 = calls s" and p1: "progress s1 = progress s"
      by (auto dest: recv_calls recv_frame [THEN frame_progress])
    have stop: "r = Inl e \<Longrightarrow> s' = s1 \<Longrightarrow> ?thesis" for e
      using k1 True by (intro exI [of _ "[]"]) simp
    show ?thesis
    proof (cases q)
      case (Inl e)
      with True rc "1.prems" have "r = Inl e" "s' = s1"
        by (simp_all add: recv_body.simps [of name sz buff acc s] buff1_def [symmetric])
      then show ?thesis by (rule stop)
    next
      case (Inr data)
      show ?thesis
      proof (cases "data = []")
        case True
        with \<open>int (length acc) < sz\<close> Inr rc "1.prems"
        have "r = Inl (SCPException ''Underlying channel was closed'')" "s' = s1"
          by (simp_all add: recv_body.simps [of name sz buff acc s] buff1_def [symmetric])
        then show ?thesis by (rule stop)
      next
        case False
        define s2 where "s2 = report name sz (int (length (acc @ data))) s1"
        from True False Inr rc "1.prems"
        have run: "recv_body name sz buff1 (acc @ data) s2 = (r, s')"
          by (simp add: recv_body.simps [of name sz buff acc s] buff1_def [symmetric] s2_def)
        from "1.IH" [OF True buff1_def rc [symmetric] Inr False, folded s2_def, OF run]
        obtain chunks where ch: "\<forall>c \<in> set chunks. c \<noteq> []"
          "calls s' = calls s2 @ (if progress s2
              then map (\<lambda>p. (name, sz, int p)) (running (length (acc @ data)) chunks) else [])"
          "\<forall>d. r = Inr d \<longrightarrow> d = (acc @ data) @ concat chunks"
          by auto
        with False k1 p1 True show ?thesis
          by (intro exI [of _ "data # chunks"]) (simp add: s2_def report_calls)
      qed
    qed
  qed
qed

lemma recv_data_calls:
  assumes "recv_data name sz s = (r, s')"
  shows "\<exists>chunks. (\<forall>c \<in> set chunks. c \<noteq> [])
           \<and> calls s' = calls s @ (if progress s
                then map (\<lambda>p. (name, sz, int p)) (running 0 chunks) else [])
           \<and> (\<forall>data. r = Inr data \<longrightarrow> data = concat chunks)
           \<and> (\<not> 0 < sz \<longrightarrow> chunks = [])"
proof -
  obtain q s1 where a: "recv_body name sz (buff_size s) [] s = (q, s1)"
    by (cases "recv_body name sz (buff_size s) [] s")
  from recv_body_calls [OF a] obtain chunks where
    ch0: "(\<forall>c \<in> set chunks. c \<noteq> [])
           \<and> calls s1 = calls s @ (if progress s
                then map (\<lambda>p. (name, sz, int p)) (running (length ([]::bytes)) chunks) else [])
           \<and> (\<forall>data. q = Inr data \<longrightarrow> data = [] @ concat chunks)
           \<and> (\<not> int (length ([]::bytes)) < sz \<longrightarrow> chunks = [])"
    by blast
  then have
    ch: "\<forall>c \<in> set chunks. c \<noteq> []"
        "calls s1 = calls s @ (if progress s
                then map (\<lambda>p. (name, sz, int p)) (running 0 chunks) else [])"
        "\<forall>data. q = Inr data \<longrightarrow> data = concat chunks"
        "\<not> 0 < sz \<longrightarrow> chunks = []"
    by simp_all
  obtain q2 s2 where b: "recv 512 s1 = (q2, s2)" by (cases "recv 512 s1")
  then have k: "calls s2 = calls s1" by (rule recv_calls)
  from assms a b have "calls s' = calls s1 \<and> (\<forall>data. r = Inr data \<longrightarrow> q = Inr data)"
    using k by (cases q; cases q2) (auto simp: recv_data_def split: if_splits)
  with ch show ?thesis by (intro exI [of _ chunks]) auto
qed

lemma on_timeout_calls: "on_timeout s = (r, s') \<Longrightarrow> calls s' = calls s"
  by (auto simp: on_timeout_def split: prod.splits sum.splits dest!: chan_close_calls)

lemma recv_file_progress:
  assumes p: "parse_file cmd = Some (mode, sz, name)" and run: "recv_file cmd s = (r, s')"
    and pr: "progress s"
  shows "\<exists>chunks. (\<forall>c \<in> set chunks. c \<noteq> [])
         \<and> calls s' = calls s @ (if sz = 0 then (name, 1, 1) else (name, sz, 0))
             # map (\<lambda>p. (name, sz, int p)) (running 0 chunks)
         \<and> (sz = 0 \<longrightarrow> chunks = [])
         \<and> (r = Inr () \<longrightarrow> (\<exists>f. files s' = files s @ [f] \<and> r_data f = concat chunks))"
proof -
  define s0 where "s0 = (if sz = 0 then report name 1 1 s else report name sz 0 s)"
  from pr have k0: "calls s0 = calls s @ [if sz = 0 then (name, 1, 1) else (name, sz, 0)]"
    and p0: "progress s0" and f0: "files s0 = files s"
    by (simp_all add: s0_def report_calls) (simp_all add: report_def)
  obtain q1 s1 where a: "sendall [NUL] s0 = (q1, s1)" by (cases "sendall [NUL] s0")
  then have k1: "calls s1 = calls s0" and fr1: "frame s1 = frame s0"
    by (auto dest: sendall_calls sendall_frame)
  show ?thesis
  proof (cases q1)
    case (Inl e)
    with run p a have "r = Inl e" "s' = s1" by (simp_all add: recv_file_def s0_def [symmetric])
    with k0 k1 show ?thesis by (intro exI [of _ "[]"]) simp
  next
    case q1: (Inr u1)
    obtain q2 s2 where b: "recv_data name sz s1 = (q2, s2)" by (cases "recv_data name sz s1")
    from fr1 p0 have p1: "progress s1" by (auto dest: frame_progress)
    from recv_data_calls [OF b] obtain chunks where
      ch0: "(\<forall>c \<in> set chunks. c \<noteq> [])
           \<and> calls s2 = calls s1 @ (if progress s1
                then map (\<lambda>p. (name, sz, int p)) (running 0 chunks) else [])
           \<and> (\<forall>data. q2 = Inr data \<longrightarrow> data = concat chunks)
           \<and> (\<not> 0 < sz \<longrightarrow> chunks = [])"
      by blast
    with p1 have
      ch: "\<forall>c \<in> set chunks. c \<noteq> []"
          "calls s2 = calls s1 @ map (\<lambda>p. (name, sz, int p)) (running 0 chunks)"
          "\<forall>data. q2 = Inr data \<longrightarrow> data = concat chunks"
          "\<not> 0 < sz \<longrightarrow> chunks = []"
      by simp_all
    from b have fr2: "frame s2 = frame s1" by (rule recv_data_frame)
    have "calls s' = calls s2 \<and> (r = Inr () \<longrightarrow>
             (\<exists>f. files s' = files s2 @ [f] \<and> r_data f = concat chunks))"
    proof (cases q2)
      case (Inl e)
      show ?thesis
      proof (cases "e = SocketTimeout")
        case True
        with Inl run p a q1 b have "on_timeout s2 = (r, s')"
          by (simp add: recv_file_def s0_def [symmetric])
        then have "calls s' = calls s2" and "r \<noteq> Inr ()"
          by (auto simp: on_timeout_def chan_close_def split: prod.splits sum.splits option.splits)
        then show ?thesis by simp
      next
        case False
        with Inl run p a q1 b show ?thesis by (auto simp: recv_file_def s0_def [symmetric])
      qed
    next
      case (Inr data)
      with run p a q1 b ch(3) show ?thesis
        by (auto simp: recv_file_def s0_def [symmetric])
    qed
    moreover from fr1 fr2 f0 have "files s2 = files s" by (simp add: frame_def)
    ultimately show ?thesis using ch k0 k1
      by (intro exI [of _ chunks]) auto
  qed
qed

text \<open>
  Claim C8. With a progress callback configured, a file of declared size 0 makes exactly
  one call, \<open>(name, 1, 1)\<close>; a file of any other size makes a first call \<open>(name, size, 0)\<close>
  and then one call after each chunk, with the position reached. On the send side this is
  for an upload that completes: the chunks are the writes between the header and the final
  zero byte, and the positions are those of the file object. On the receive side it holds
  however the download of the file ends, the positions being the running total of the
  non-empty chunks received, which are the data of the file when the download completes.
\<close>

theorem progress_calls:
  "(progress s \<longrightarrow> send_file fl (PStr n) mode sz s = Some (Inr u, s') \<longrightarrow>
      (\<exists>chunks.
           cur_sent s' = cur_sent s @ [file_line mode sz (quote_nl (basename n))] @ chunks @ [[NUL]]
         \<and> calls s' = calls s
             @ (if sz = 0 then (quote_nl (basename n), 1, 1) else (quote_nl (basename n), sz, 0))
             # map (\<lambda>p. (quote_nl (basename n), sz, int p)) (running (pos fl) chunks)
         \<and> (sz = 0 \<longrightarrow> chunks = [])))
   \<and> (progress s \<longrightarrow> parse_file cmd = Some (rmode, rsz, name) \<longrightarrow> recv_file cmd s = (r, t) \<longrightarrow>
      (\<exists>chunks. (\<forall>c \<in> set chunks. c \<noteq> [])
         \<and> calls t = calls s @ (if rsz = 0 then (name, 1, 1) else (name, rsz, 0))
             # map (\<lambda>p. (name, rsz, int p)) (running 0 chunks)
         \<and> (rsz = 0 \<longrightarrow> chunks = [])
         \<and> (r = Inr () \<longrightarrow> (\<exists>f. files t = files s @ [f] \<and> r_data f = concat chunks))))"
  using send_file_progress [of fl n mode sz s u s'] recv_file_progress [of cmd rmode rsz name s r t]
  by blast


definition ack_demo :: client where
  "ack_demo = (init_client [] 4 True)
     \<lparr>channel := Some 0, store := (\<lambda>_. new_channel [Chunk [NUL], Chunk [NUL]])\<rparr>"

definition data_demo :: client where
  "data_demo = (init_client [] 2 True)
     \<lparr>channel := Some 0, store := (\<lambda>_. new_channel [Chunk ''abc'', Chunk [NUL]])\<rparr>"

theorem progress_calls_witness:
  "progress ack_demo \<and> progress data_demo
   \<and> outcome (send_file \<lparr>content = [], pos = 0\<rparr> (PStr ''a.txt'') ''0644'' 0 ack_demo)
       = Some (Inr ())
   \<and> calls (final (send_file \<lparr>content = [], pos = 0\<rparr> (PStr ''a.txt'') ''0644'' 0 ack_demo))
       = [(''a.txt'', 1, 1)]
   \<and> outcome
        (send_file \<lparr>content = ''0123456789'', pos = 0\<rparr> (PStr ''dir/file'') ''0644'' 10 ack_demo)
       = Some (Inr ())
   \<and> (\<exists>chunks. cur_sent (final
          (send_file \<lparr>content = ''0123456789'', pos = 0\<rparr> (PStr ''dir/file'') ''0644'' 10 ack_demo))
          = [''C0644 10 file'' @ [NL]] @ chunks @ [[NUL]]
        \<and> calls (final
          (send_file \<lparr>content = ''0123456789'', pos = 0\<rparr> (PStr ''dir/file'') ''0644'' 10 ack_demo))
          = (''file'', 10, 0) # map (\<lambda>p. (''file'', 10, int p)) (running 0 chunks))
   \<and> calls (final
          (send_file \<lparr>content = ''0123456789'', pos = 0\<rparr> (PStr ''dir/file'') ''0644'' 10 ack_demo))
       = [(''file'', 10, 0), (''file'', 10, 4), (''file'', 10, 8), (''file'', 10, 10)]
   \<and> parse_file ''0644 0 empty'' = Some (420, 0, ''empty'')
   \<and> calls (snd (recv_file ''0644 0 empty'' ack_demo)) = [(''empty'', 1, 1)]
   \<and> parse_file ''0644 3 x'' = Some (420, 3, ''x'')
   \<and> fst (recv_file ''0644 3 x'' data_demo) = Inr ()
   \<and> (\<exists>chunks. (\<forall>c \<in> set chunks. c \<noteq> [])
        \<and> calls (snd (recv_file ''0644 3 x'' data_demo))
            = (''x'', 3, 0) # map (\<lambda>p. (''x'', 3, int p)) (running 0 chunks)
        \<and> map r_data (files (snd (recv_file ''0644 3 x'' data_demo))) = [concat chunks])
   \<and> calls (snd (recv_file ''0644 3 x'' data_demo)) = [(''x'', 3, 0), (''x'', 3, 2), (''x'', 3, 3)]"
proof -
  let ?f0 = "\<lparr>content = [], pos = 0\<rparr>" and ?f10 = "\<lparr>content = ''0123456789'', pos = 0\<rparr>"
  let ?q0 = "send_file ?f0 (PStr ''a.txt'') ''0644'' 0 ack_demo"
  let ?q10 = "send_file ?f10 (PStr ''dir/file'') ''0644'' 10 ack_demo"
  have pr: "progress ack_demo" "progress data_demo"
    and k: "calls ack_demo = []" "calls data_demo = []" "files data_demo = []"
    and cs: "cur_sent ack_demo = []"
    by (simp_all add: ack_demo_def data_demo_def init_client_def cur_sent_def new_channel_def)
  have e0: "outcome ?q0 = Some (Inr ())"
    and e10: "outcome ?q10 = Some (Inr ())"
    and c10: "calls (final ?q10)
       = [(''file'', 10, 0), (''file'', 10, 4), (''file'', 10, 8), (''file'', 10, 10)]"
    and p0: "parse_file ''0644 0 empty'' = Some (420, 0, ''empty'')"
    and p3: "parse_file ''0644 3 x'' = Some (420, 3, ''x'')"
    and r3: "fst (recv_file ''0644 3 x'' data_demo) = Inr ()"
    and c3: "calls (snd (recv_file ''0644 3 x'' data_demo))
       = [(''x'', 3, 0), (''x'', 3, 2), (''x'', 3, 3)]"
    and bn: "quote_nl (basename ''a.txt'') = ''a.txt''" "quote_nl (basename ''dir/file'') = ''file''"
    and fl: "file_line ''0644'' 10 ''file'' = ''C0644 10 file'' @ [NL]"
    by code_simp+
  from e0 have q0: "?q0 = Some (Inr (), final ?q0)" by (rule returned)
  from e10 have q10: "?q10 = Some (Inr (), final ?q10)" by (rule returned)
  from progress_calls [THEN conjunct1, of ack_demo ?f0 "''a.txt''" "''0644''" 0 "()" "final ?q0"]
    pr q0 k bn
  have 1: "calls (final ?q0) = [(''a.txt'', 1, 1)]" by auto
  from progress_calls [THEN conjunct1, of ack_demo ?f10 "''dir/file''" "''0644''" 10 "()"
      "final ?q10"] pr q10 k cs bn fl
  have 2: "\<exists>chunks. cur_sent (final ?q10) = [''C0644 10 file'' @ [NL]] @ chunks @ [[NUL]]
        \<and> calls (final ?q10)
          = (''file'', 10, 0) # map (\<lambda>p. (''file'', 10, int p)) (running 0 chunks)"
    by auto
  from progress_calls [THEN conjunct2, of ack_demo "''0644 0 empty''" 420 0 "''empty''"
      "fst (recv_file ''0644 0 empty'' ack_demo)" "snd (recv_file ''0644 0 empty'' ack_demo)"]
    pr p0 k
  have 3: "calls (snd (recv_file ''0644 0 empty'' ack_demo)) = [(''empty'', 1, 1)]" by auto
  from r3 have r3': "recv_file ''0644 3 x'' data_demo
                      = (Inr (), snd (recv_file ''0644 3 x'' data_demo))"
    by (simp add: prod_eq_iff)
  from progress_calls [THEN conjunct2, of data_demo "''0644 3 x''" 420 3 "''x''"
      "Inr ()" "snd (recv_file ''0644 3 x'' data_demo)"]
    pr p3 k r3'
  have 4: "\<exists>chunks. (\<forall>c \<in> set chunks. c \<noteq> [])
        \<and> calls (snd (recv_file ''0644 3 x'' data_demo))
            = (''x'', 3, 0) # map (\<lambda>p. (''x'', 3, int p)) (running 0 chunks)
        \<and> map r_data (files (snd (recv_file ''0644 3 x'' data_demo))) = [concat chunks]"
    by auto
  from pr e0 e10 c10 p0 p3 r3 c3 1 2 3 4 show ?thesis by blast
qed

section \<open>Encoding and decoding the control records\<close>

subsection \<open>Digits\<close>

lemma of_char_digit_char: "d < 10 \<Longrightarrow> of_char (digit_char d) = 48 + d"
  by (simp add: digit_char_def)

lemma digit_of_digit_char: "d < base \<Longrightarrow> base \<le> 10 \<Longrightarrow> digit_of base (digit_char d) = Some d"
  by (simp add: digit_of_def of_char_digit_char Let_def)

lemma digit_char_plain:
  assumes "d < 10"
  shows "digit_char d \<noteq> CHR ''_''" "digit_char d \<noteq> CHR '' ''" "\<not> is_space (digit_char d)"
    "digit_char d \<noteq> CHR ''-''" "digit_char d \<noteq> CHR ''+''" "digit_char d \<noteq> CHR ''o''"
    "digit_char d \<noteq> CHR ''O''" "of_char (digit_char d) < (128::nat)"
proof -
  have v: "of_char (digit_char d) = (48 + d :: nat)" using assms by (rule of_char_digit_char)
  have ne: "digit_char d \<noteq> c" if "of_char c \<noteq> (48 + d :: nat)" for c
    using that v by auto
  show "digit_char d \<noteq> CHR ''_''" "digit_char d \<noteq> CHR '' ''"
    "digit_char d \<noteq> CHR ''-''" "digit_char d \<noteq> CHR ''+''" "digit_char d \<noteq> CHR ''o''"
    "digit_char d \<noteq> CHR ''O''"
    using assms by (auto intro!: ne)
  show "\<not> is_space (digit_char d)"
    using assms by (auto simp: is_space_def intro!: ne [symmetric] ne)
  show "of_char (digit_char d) < (128::nat)" using assms v by simp
qed

text \<open>A string of digits of the base, as the formatters write it.\<close>

definition digits_of :: "nat \<Rightarrow> string \<Rightarrow> bool" where
  "digits_of base ds \<longleftrightarrow> ds \<noteq> [] \<and> (\<forall>c \<in> set ds. \<exists>d < base. c = digit_char d)"

definition value_of :: "nat \<Rightarrow> nat \<Rightarrow> string \<Rightarrow> nat" where
  "value_of base acc ds = foldl (\<lambda>a c. a * base + (of_char c - 48)) acc ds"

lemma parse_digits_plain:
  assumes "\<forall>c \<in> set ds. \<exists>d < base. c = digit_char d" and "base \<le> 10" and "ds \<noteq> [] \<or> \<not> us"
  shows "parse_digits base acc us ds = Some (value_of base acc ds)"
  using assms
proof (induction ds arbitrary: acc us)
  case Nil
  then show ?case by (simp add: value_of_def)
next
  case (Cons c ds)
  then obtain d where d: "d < base" "c = digit_char d" by auto
  with Cons.prems have d10: "d < 10" by simp
  from d Cons.prems have v: "digit_of base c = Some d" by (simp add: digit_of_digit_char)
  from d d10 have u: "c \<noteq> CHR ''_''" by (simp add: digit_char_plain)
  from d d10 have o: "of_char c - 48 = d" by (simp add: of_char_digit_char)
  from Cons.prems have "parse_digits base (acc * base + d) False ds
        = Some (value_of base (acc * base + d) ds)"
    by (intro Cons.IH) auto
  with v u o show ?case by (simp add: value_of_def)
qed

lemma dec_nat_digits: "digits_of 10 (dec_nat n)"
proof (induction n rule: dec_nat.induct)
  case (1 n)
  show ?case
  proof (cases "n < 10")
    case True
    then show ?thesis by (subst dec_nat.simps) (auto simp: digits_of_def)
  next
    case False
    with 1 have "digits_of 10 (dec_nat (n div 10))" by simp
    moreover have "\<exists>d<10. digit_char (n mod 10) = digit_char d"
      by (rule exI [of _ "n mod 10"]) simp
    ultimately show ?thesis using False
      by (subst dec_nat.simps) (auto simp: digits_of_def)
  qed
qed

lemma dec_nat_value: "value_of 10 0 (dec_nat n) = n"
proof (induction n rule: dec_nat.induct)
  case (1 n)
  show ?case
  proof (cases "n < 10")
    case True
    then show ?thesis
      by (subst dec_nat.simps) (simp add: value_of_def of_char_digit_char)
  next
    case False
    with 1 have "value_of 10 0 (dec_nat (n div 10)) = n div 10" by simp
    with False show ?thesis
      by (subst dec_nat.simps) (simp add: value_of_def of_char_digit_char)
  qed
qed

lemma oct_nat_digits: "digits_of 8 (oct_nat n)"
proof (induction n rule: oct_nat.induct)
  case (1 n)
  show ?case
  proof (cases "n < 8")
    case True
    then show ?thesis by (subst oct_nat.simps) (auto simp: digits_of_def)
  next
    case False
    with 1 have "digits_of 8 (oct_nat (n div 8))" by simp
    moreover have "\<exists>d<8. digit_char (n mod 8) = digit_char d"
      by (rule exI [of _ "n mod 8"]) simp
    ultimately show ?thesis using False
      by (subst oct_nat.simps) (auto simp: digits_of_def)
  qed
qed

lemma oct_nat_value: "value_of 8 0 (oct_nat n) = n"
proof (induction n rule: oct_nat.induct)
  case (1 n)
  show ?case
  proof (cases "n < 8")
    case True
    then show ?thesis
      by (subst oct_nat.simps) (simp add: value_of_def of_char_digit_char)
  next
    case False
    with 1 have "value_of 8 0 (oct_nat (n div 8)) = n div 8" by simp
    moreover have "n mod 8 < 10" by (rule less_trans [of _ 8]) simp_all
    ultimately show ?thesis using False
      by (subst oct_nat.simps) (simp add: value_of_def of_char_digit_char)
  qed
qed


subsection \<open>Reading back a formatted number\<close>

lemma strip_id:
  assumes "b \<noteq> []" and "\<not> is_space (hd b)" and "\<not> is_space (last b)"
  shows "strip b = b"
proof -
  from assms have "dropWhile is_space b = b" by (cases b) auto
  moreover from assms have "dropWhile is_space (rev b) = rev b"
    by (cases b rule: rev_cases) auto
  ultimately show ?thesis by (simp add: strip_def)
qed

lemma digits_of_chars:
  assumes "digits_of base ds" and "base \<le> 10" and "c \<in> set ds"
  shows "c \<noteq> CHR ''_''" "c \<noteq> CHR '' ''" "\<not> is_space c" "c \<noteq> CHR ''-''" "c \<noteq> CHR ''+''"
    "c \<noteq> CHR ''o''" "c \<noteq> CHR ''O''" "of_char c < (128::nat)"
proof -
  from assms obtain d where "d < base" "c = digit_char d" by (auto simp: digits_of_def)
  with assms(2) have "d < 10" "c = digit_char d" by simp_all
  then show "c \<noteq> CHR ''_''" "c \<noteq> CHR '' ''" "\<not> is_space c" "c \<noteq> CHR ''-''" "c \<noteq> CHR ''+''"
    "c \<noteq> CHR ''o''" "c \<noteq> CHR ''O''" "of_char c < (128::nat)"
    by (simp_all add: digit_char_plain)
qed

lemma py_int_digits:
  assumes ds: "digits_of base ds" and base: "base \<le> 10"
  shows "py_int base ds = Some (int (value_of base 0 ds))"
proof -
  from ds obtain c cs where c: "ds = c # cs" by (cases ds) (auto simp: digits_of_def)
  from ds have ne: "ds \<noteq> []" by (simp add: digits_of_def)
  then have "hd ds \<in> set ds" "last ds \<in> set ds" by simp_all
  with ds base have "\<not> is_space (hd ds)" "\<not> is_space (last ds)"
    by (auto dest: digits_of_chars(3))
  with ne have st: "strip ds = ds" by (rule strip_id)
  from c ds base have sign: "take 1 ds \<noteq> ''-''" "take 1 ds \<noteq> ''+''" "take 1 ds \<noteq> ''_''"
    using digits_of_chars(1,4,5) [of base ds c] by auto
  have pre: "drop_prefix base ds = ds"
  proof (cases cs)
    case Nil
    with c show ?thesis by (simp add: drop_prefix_def)
  next
    case (Cons d rest)
    with c ds base have "d \<noteq> CHR ''o''" "d \<noteq> CHR ''O''"
      using digits_of_chars(6,7) [of base ds d] by auto
    with c Cons show ?thesis by (simp add: drop_prefix_def)
  qed
  from ds have "\<forall>c \<in> set ds. \<exists>d < base. c = digit_char d" by (simp add: digits_of_def)
  with base have "parse_digits base 0 False ds = Some (value_of base 0 ds)"
    by (intro parse_digits_plain) auto
  with st sign pre ne show ?thesis by (simp add: py_int_def Let_def)
qed

lemma py_int_dec: "py_int 10 (fmt_d (int n)) = Some (int n)"
  using py_int_digits [OF dec_nat_digits] by (simp add: fmt_d_def dec_nat_value)

lemma zero_char: "CHR ''0'' = digit_char 0"
  by code_simp

lemma fmt_04o_digits: "digits_of 8 (fmt_04o m)"
  using oct_nat_digits [of m]
  by (auto simp: digits_of_def fmt_04o_def zero_char intro: exI [of _ 0])

lemma value_of_zeros: "value_of base 0 (replicate k (CHR ''0'') @ ds) = value_of base 0 ds"
  by (induction k) (simp_all add: value_of_def)

lemma py_int_oct: "py_int 8 (fmt_04o m) = Some (int m)"
  using py_int_digits [OF fmt_04o_digits]
  by (simp add: fmt_04o_def value_of_zeros oct_nat_value)


subsection \<open>Fields\<close>

lemma split_max_plain: "CHR '' '' \<notin> set b \<Longrightarrow> split_max n b = [b]"
  by (cases n) simp_all

lemma dropWhile_not_mem: "c \<notin> set xs \<Longrightarrow> dropWhile (\<lambda>x. x \<noteq> c) (xs @ c # ys) = c # ys"
  by (induction xs) auto

lemma split_max_field:
  assumes "CHR '' '' \<notin> set a"
  shows "split_max (Suc n) (a @ CHR '' '' # rest) = a # split_max n rest"
proof -
  from assms have "takeWhile (\<lambda>c. c \<noteq> CHR '' '') (a @ CHR '' '' # rest) = a"
    by (simp add: takeWhile_tail takeWhile_not_mem)
  moreover from assms have "dropWhile (\<lambda>c. c \<noteq> CHR '' '') (a @ CHR '' '' # rest) = CHR '' '' # rest"
    by (rule dropWhile_not_mem)
  ultimately show ?thesis by simp
qed

lemma digits_no_space: "digits_of base ds \<Longrightarrow> base \<le> 10 \<Longrightarrow> CHR '' '' \<notin> set ds"
  by (auto dest: digits_of_chars(2))

lemma fmt_d_nat: "0 \<le> n \<Longrightarrow> fmt_d n = dec_nat (nat n)"
  by (simp add: fmt_d_def)

lemma py_int_fmt_d: "0 \<le> n \<Longrightarrow> py_int 10 (fmt_d n) = Some n"
  using py_int_dec [of "nat n"] by simp

lemma parse_file_line:
  assumes name: "name \<noteq> []" "\<not> is_space (last name)" and sz: "0 \<le> sz"
  shows "parse_file (fmt_04o mode @ '' '' @ fmt_d sz @ '' '' @ name) = Some (int mode, sz, name)"
proof -
  define cmd where "cmd = fmt_04o mode @ CHR '' '' # fmt_d sz @ CHR '' '' # name"
  have m: "digits_of 8 (fmt_04o mode)" by (rule fmt_04o_digits)
  from sz have d: "digits_of 10 (fmt_d sz)" by (simp add: fmt_d_nat dec_nat_digits)
  from m have "fmt_04o mode \<noteq> []" by (simp add: digits_of_def)
  then have "hd cmd = hd (fmt_04o mode)" "hd (fmt_04o mode) \<in> set (fmt_04o mode)"
    by (simp_all add: cmd_def)
  with m have h: "\<not> is_space (hd cmd)" by (auto dest: digits_of_chars(3))
  from name have l: "\<not> is_space (last cmd)" "cmd \<noteq> []" by (simp_all add: cmd_def)
  from h l have st: "strip cmd = cmd" by (intro strip_id)
  have "split_max 2 cmd = fmt_04o mode # split_max 1 (fmt_d sz @ CHR '' '' # name)"
    unfolding cmd_def numeral_2_eq_2 One_nat_def
    by (rule split_max_field) (use m in \<open>auto dest: digits_no_space\<close>)
  also have "split_max 1 (fmt_d sz @ CHR '' '' # name) = fmt_d sz # split_max 0 name"
    unfolding One_nat_def
    by (rule split_max_field) (use d in \<open>auto dest: digits_no_space\<close>)
  finally have parts: "split_max 2 cmd = [fmt_04o mode, fmt_d sz, name]" by simp
  from sz show ?thesis
    by (simp add: parse_file_def cmd_def [symmetric, simplified] st parts py_int_oct py_int_fmt_d
             del: split_max.simps)
qed

lemma split_sp_four:
  assumes "CHR '' '' \<notin> set a" "CHR '' '' \<notin> set b" "CHR '' '' \<notin> set c" "CHR '' '' \<notin> set d"
  shows "split_sp (a @ CHR '' '' # b @ CHR '' '' # c @ CHR '' '' # d) = [a, b, c, d]"
proof -
  obtain k where k: "length (a @ CHR '' '' # b @ CHR '' '' # c @ CHR '' '' # d) = Suc (Suc (Suc k))"
    by simp
  show ?thesis
    unfolding split_sp_def k
    using assms by (simp add: split_max_field split_max_plain del: split_max.simps)
qed

lemma parse_time_line:
  assumes "0 \<le> mtime" and "0 \<le> atime"
  shows "parse_time (fmt_d mtime @ '' 0 '' @ fmt_d atime @ '' 0'')
           = Some (if atime \<noteq> 0 then atime else mtime, mtime)"
proof -
  from assms have d: "digits_of 10 (fmt_d mtime)" "digits_of 10 (fmt_d atime)"
    by (simp_all add: fmt_d_nat dec_nat_digits)
  then have "CHR '' '' \<notin> set (fmt_d mtime)" "CHR '' '' \<notin> set (fmt_d atime)"
    by (auto dest: digits_no_space)
  then have "split_sp (fmt_d mtime @ CHR '' '' # ''0'' @ CHR '' '' # fmt_d atime @ CHR '' '' # ''0'')
         = [fmt_d mtime, ''0'', fmt_d atime, ''0'']"
    by (intro split_sp_four) simp_all
  with assms show ?thesis
    by (simp add: parse_time_def py_int_fmt_d)
qed


subsection \<open>The round trip\<close>

text \<open>
  \<open>_recv_all\<close> requires a record to end in a newline, removes it, dispatches on the first
  byte and hands the rest to the handler, which parses it.
\<close>

definition code_of :: "bytes \<Rightarrow> bytes" where
  "code_of line = take 1 (butlast line)"

definition arg_of :: "bytes \<Rightarrow> bytes" where
  "arg_of line = drop 1 (butlast line)"

lemma quote_nl_plain: "NL \<notin> set b \<Longrightarrow> quote_nl b = b"
  by (induction b) (auto simp: quote_nl_def)

text \<open>
  Claim C2, as stated, fails for a \<open>T\<close> record: one with modification time 1000 and
  access time 0 is read back with access time 1000, since \<open>_set_time\<close> takes the
  modification time for an access time of 0.
\<close>

theorem time_record_zero_atime_not_restored:
  "parse_time (arg_of (time_line 1000 0)) = Some (1000, 1000)
   \<and> parse_time (arg_of (time_line 1000 0)) \<noteq> Some (0, 1000)"
  by code_simp

text \<open>
  Claim C2, amended. A \<open>C\<close> record with any mode, a size of at least 0 and a name that is
  not empty, is ASCII, holds no newline and no \<open>/\<close> and does not end in whitespace is
  written as one ASCII line with the tag \<open>C\<close> that \<open>_recv_file\<close> parses back to the same
  mode, size and name. A \<open>T\<close> record with times of at least 0 is written as a line with the
  tag \<open>T\<close> that \<open>_set_time\<close> parses back to the same modification time and, unless it is
  0, the same access time; an access time of 0 is read back as the modification time. An
  \<open>E\<close> record is written as \<open>E\<close> and a newline, which is dispatched to the pop of a
  directory. (The \<open>D\<close> record is left out here.)
\<close>

theorem control_records_round_trip:
  "(name \<noteq> [] \<and> NL \<notin> set name \<and> bytes_sep \<notin> set name \<and> \<not> is_space (last name)
      \<and> (\<forall>c \<in> set name. of_char c < (128::nat)) \<and> 0 \<le> sz \<longrightarrow>
      encode_ascii (file_line (fmt_04o mode) sz (quote_nl (basename name)))
        = Some (file_line (fmt_04o mode) sz (quote_nl (basename name)))
      \<and> last (file_line (fmt_04o mode) sz (quote_nl (basename name))) = NL
      \<and> code_of (file_line (fmt_04o mode) sz (quote_nl (basename name))) = ''C''
      \<and> parse_file (arg_of (file_line (fmt_04o mode) sz (quote_nl (basename name))))
          = Some (int mode, sz, name))
   \<and> (0 \<le> mtime \<and> 0 \<le> atime \<longrightarrow>
      last (time_line mtime atime) = NL \<and> code_of (time_line mtime atime) = ''T''
      \<and> parse_time (arg_of (time_line mtime atime))
          = Some (if atime \<noteq> 0 then atime else mtime, mtime))
   \<and> dispatch (butlast (''E'' @ [NL])) s = (Inr (), recv_popd s)"
proof (intro conjI impI)
  assume a: "name \<noteq> [] \<and> NL \<notin> set name \<and> bytes_sep \<notin> set name \<and> \<not> is_space (last name)
      \<and> (\<forall>c \<in> set name. of_char c < (128::nat)) \<and> 0 \<le> sz"
  then have bn: "quote_nl (basename name) = name"
    by (simp add: basename_plain quote_nl_plain)
  define body where "body = fmt_04o mode @ '' '' @ fmt_d sz @ '' '' @ name"
  have line: "file_line (fmt_04o mode) sz name = CHR ''C'' # body @ [NL]"
    by (simp add: file_line_def body_def)
  from a have "digits_of 10 (fmt_d sz)" by (simp add: fmt_d_nat dec_nat_digits)
  then have "\<forall>c \<in> set (fmt_d sz). of_char c < (128::nat)"
    by (auto dest: digits_of_chars(8))
  moreover have "\<forall>c \<in> set (fmt_04o mode). of_char c < (128::nat)"
    using fmt_04o_digits [of mode] by (auto dest: digits_of_chars(8))
  ultimately have "\<forall>c \<in> set (file_line (fmt_04o mode) sz name). of_char c < (128::nat)"
    using a by (auto simp: file_line_def NL_def)
  then show "encode_ascii (file_line (fmt_04o mode) sz (quote_nl (basename name)))
        = Some (file_line (fmt_04o mode) sz (quote_nl (basename name)))"
    by (simp add: bn encode_ascii_def)
  show "last (file_line (fmt_04o mode) sz (quote_nl (basename name))) = NL"
    by (simp add: bn line)
  show "code_of (file_line (fmt_04o mode) sz (quote_nl (basename name))) = ''C''"
    by (simp add: bn line code_of_def butlast_append)
  from a have "parse_file body = Some (int mode, sz, name)"
    unfolding body_def by (intro parse_file_line) simp_all
  then show "parse_file (arg_of (file_line (fmt_04o mode) sz (quote_nl (basename name))))
          = Some (int mode, sz, name)"
    by (simp add: bn line arg_of_def butlast_append)
next
  assume t: "0 \<le> mtime \<and> 0 \<le> atime"
  define body where "body = fmt_d mtime @ '' 0 '' @ fmt_d atime @ '' 0''"
  have line: "time_line mtime atime = CHR ''T'' # body @ [NL]"
    by (simp add: time_line_def body_def)
  show "last (time_line mtime atime) = NL" by (simp add: line)
  show "code_of (time_line mtime atime) = ''T''"
    by (simp add: line code_of_def butlast_append)
  from t have "parse_time body = Some (if atime \<noteq> 0 then atime else mtime, mtime)"
    unfolding body_def by (intro parse_time_line) simp_all
  then show "parse_time (arg_of (time_line mtime atime))
          = Some (if atime \<noteq> 0 then atime else mtime, mtime)"
    by (simp add: line arg_of_def butlast_append)
next
  show "dispatch (butlast (''E'' @ [NL])) s = (Inr (), recv_popd s)"
    by (simp add: dispatch_def)
qed

theorem control_records_round_trip_witness:
  "''a b.txt'' \<noteq> [] \<and> NL \<notin> set ''a b.txt'' \<and> bytes_sep \<notin> set ''a b.txt''
   \<and> \<not> is_space (last ''a b.txt'') \<and> list_all (\<lambda>c. of_char c < (128::nat)) ''a b.txt''
   \<and> file_line (fmt_04o 420) 10 (quote_nl (basename ''a b.txt'')) = ''C0644 10 a b.txt'' @ [NL]
   \<and> parse_file (arg_of (''C0644 10 a b.txt'' @ [NL])) = Some (420, 10, ''a b.txt'')
   \<and> time_line 1000 2000 = ''T1000 0 2000 0'' @ [NL]
   \<and> parse_time (arg_of (''T1000 0 2000 0'' @ [NL])) = Some (2000, 1000)"
proof -
  have h: "''a b.txt'' \<noteq> [] \<and> NL \<notin> set ''a b.txt'' \<and> bytes_sep \<notin> set ''a b.txt''
      \<and> \<not> is_space (last ''a b.txt'') \<and> (\<forall>c \<in> set ''a b.txt''. of_char c < (128::nat))
      \<and> (0::int) \<le> 10"
    by (simp add: NL_def bytes_sep_def is_space_def)
  have t: "(0::int) \<le> 1000 \<and> (0::int) \<le> 2000" by simp
  have l: "file_line (fmt_04o 420) 10 (quote_nl (basename ''a b.txt'')) = ''C0644 10 a b.txt'' @ [NL]"
    "time_line 1000 2000 = ''T1000 0 2000 0'' @ [NL]"
    by code_simp+
  from control_records_round_trip
    [where name = "''a b.txt''" and sz = 10 and mode = 420 and mtime = 1000 and atime = 2000] h t l
  have "parse_file (arg_of (''C0644 10 a b.txt'' @ [NL])) = Some (420, 10, ''a b.txt'')"
    "parse_time (arg_of (''T1000 0 2000 0'' @ [NL])) = Some (2000, 1000)"
    by simp_all
  with h l show ?thesis by (simp add: list_all_iff)
qed

end
